theory Spec2Isabelle
  imports Main "HOL-Library.Word" "HOL-Library.Multiset" "HOL-Library.Product_Lexorder"
begin

unbundle bit_operations_syntax

section \<open>Data model\<close>

text \<open>
  A record of the sort (\<^verbatim>\<open>elem_t\<close>): a 64-bit key, a 64-bit ORP id and an opaque
  payload.  \<^verbatim>\<open>size_t\<close> and \<^verbatim>\<open>uint64_t\<close> are 64-bit words, \<^verbatim>\<open>uint32_t\<close> is a 32-bit
  word and C's \<^verbatim>\<open>int\<close> results of comparisons are integers.
\<close>

type_synonym u64 = "64 word"
type_synonym u32 = "32 word"
type_synonym size_t = "64 word"

record elem =
  key :: u64
  orp_id :: u64
  payload :: "8 word list"

section \<open>The comparator of \<^verbatim>\<open>nonoblivious.c\<close>\<close>

text \<open>
  \<^verbatim>\<open>(a > b) - (a < b)\<close> on unsigned 64-bit values, as a C \<^verbatim>\<open>int\<close>.
\<close>

definition comp3 :: "u64 \<Rightarrow> u64 \<Rightarrow> int" where
  "comp3 a b = of_bool (a > b) - of_bool (a < b)"

text \<open>
  \<^verbatim>\<open>mergesort_comparator\<close>: both fields are always compared;
  the result is \<^verbatim>\<open>(comp_key << 1) + comp_orp_id\<close>.
\<close>

definition mergesort_comparator :: "elem \<Rightarrow> elem \<Rightarrow> int" where
  "mergesort_comparator a b =
     (let comp_key = comp3 (key a) (key b);
          comp_orp_id = comp3 (orp_id a) (orp_id b)
      in push_bit 1 comp_key + comp_orp_id)"

text \<open>The lexicographic three-way comparison of the pairs (key, orp_id).\<close>

definition lex_sign :: "elem \<Rightarrow> elem \<Rightarrow> int" where
  "lex_sign a b =
     (if key a < key b then -1 else if key a > key b then 1
      else if orp_id a < orp_id b then -1 else if orp_id a > orp_id b then 1 else 0)"

section \<open>The entropy source\<close>

text \<open>
  Modelled from the spec: the entropy source behind \<^verbatim>\<open>rand_read\<close> and \<^verbatim>\<open>rand_bit\<close>,
  whose implementations are not part of the sources at hand.  The source holds the 32-bit
  words it is still going to deliver; a read that asks for more than is left fails with the
  status \<open>fail\<close>.  A successful \<^verbatim>\<open>rand_read\<close> of \<open>k\<close> words returns the next \<open>k\<close> words,
  \<^verbatim>\<open>rand_bit\<close> returns the lowest bit of the next word.
\<close>

record entropy =
  pool :: "u32 list"
  fail :: int

definition rand_read :: "nat \<Rightarrow> entropy \<Rightarrow> int + (u32 list \<times> entropy)" where
  "rand_read k r =
     (if k \<le> length (pool r) then Inr (take k (pool r), r\<lparr>pool := drop k (pool r)\<rparr>)
      else Inl (fail r))"

definition rand_bit :: "entropy \<Rightarrow> int + (bool \<times> entropy)" where
  "rand_bit r =
     (case pool r of [] \<Rightarrow> Inl (fail r) | w # ws \<Rightarrow> Inr (bit w 0, r\<lparr>pool := ws\<rparr>))"

section \<open>The oblivious shuffle of \<^verbatim>\<open>orshuffle.c\<close>\<close>

text \<open>
  The memory the shuffle works on: the record array, the two scratch arrays, the entropy
  source, and (as a ghost field) the list of index pairs handed to \<^verbatim>\<open>o_memswap\<close> so far.
  A C pointer into one of the arrays is the index \<open>base\<close> of its first cell; the three
  arrays are always advanced together, so one base serves all three.
\<close>

record sstate =
  arr :: "elem list"
  marked :: "bool list"
  marked_prefix_sums :: "size_t list"
  rng :: entropy
  trace :: "(nat \<times> nat) list"

definition SWAP_CHUNK_SIZE :: nat where "SWAP_CHUNK_SIZE = 4096"
definition MARK_COINS :: nat where "MARK_COINS = 2048"

text \<open>
  \<^verbatim>\<open>o_memswap(&arr[a], &arr[b], sizeof(*arr), cond)\<close>: the two cells are exchanged when
  \<open>cond\<close> holds; the pair of indices is logged whatever \<open>cond\<close> is.
\<close>

definition o_memswap :: "sstate \<Rightarrow> nat \<Rightarrow> nat \<Rightarrow> bool \<Rightarrow> sstate" where
  "o_memswap st a b cond =
     st\<lparr>arr := (if cond then (arr st)[a := arr st ! b, b := arr st ! a] else arr st),
        trace := trace st @ [(a, b)]\<rparr>"

text \<open>
  \<^verbatim>\<open>swap_local_range(arr, length, offset, left_marked_count)\<close> with \<^verbatim>\<open>arr\<close> at index
  \<open>base\<close>.  The comparisons and the remainders are those of \<^verbatim>\<open>size_t\<close>.
\<close>

definition swap_cond :: "nat \<Rightarrow> size_t \<Rightarrow> size_t \<Rightarrow> nat \<Rightarrow> bool" where
  "swap_cond n offset left_marked_count i =
     (let half = (of_nat (n div 2) :: size_t);
          s = ((offset mod half + left_marked_count \<ge> half) \<noteq> (offset \<ge> half))
      in s \<noteq> (of_nat i \<ge> (offset + left_marked_count) mod half))"

definition swap_local_range :: "sstate \<Rightarrow> nat \<Rightarrow> nat \<Rightarrow> size_t \<Rightarrow> size_t \<Rightarrow> sstate" where
  "swap_local_range st base n offset left_marked_count =
     fold (\<lambda>i st. o_memswap st (base + i) (base + i + n div 2)
                     (swap_cond n offset left_marked_count i))
          [0..<n div 2] st"

definition swap_range :: "sstate \<Rightarrow> nat \<Rightarrow> nat \<Rightarrow> size_t \<Rightarrow> size_t \<Rightarrow> sstate" where
  "swap_range st base n offset left_marked_count =
     swap_local_range st base n offset left_marked_count"

text \<open>
  \<^verbatim>\<open>compact(arr, marked, marked_prefix_sums, length, offset)\<close>.  Every path of the C
  function returns 0, so the model returns the memory only.
\<close>

fun compact :: "sstate \<Rightarrow> nat \<Rightarrow> nat \<Rightarrow> size_t \<Rightarrow> sstate" where
  "compact st base n offset =
     (if n < 2 then st
      else if n = 2 then
        o_memswap st base (base + 1)
          ((\<not> marked st ! base \<and> marked st ! (base + 1)) \<noteq> (offset \<noteq> 0))
      else
        let mid_idx = n div 2 - 1;
            mid_prefix_sum = marked_prefix_sums st ! (base + mid_idx);
            left_marked_count =
              mid_prefix_sum - marked_prefix_sums st ! base + of_bool (marked st ! base);
            st1 = compact st base (n div 2) (offset mod of_nat (n div 2));
            st2 = compact st1 (base + n div 2) (n div 2)
                    ((offset + left_marked_count) mod of_nat (n div 2))
        in swap_range st2 base n offset left_marked_count)"

declare compact.simps [simp del]

text \<open>
  The marking loop of \<^verbatim>\<open>shuffle\<close>.  \<open>mark_elem\<close> is the body of the inner loop for
  the cell \<open>idx = base + i + j\<close> and the coin \<open>coins[j]\<close>; the locals \<^verbatim>\<open>total_left\<close> and
  \<^verbatim>\<open>marked_so_far\<close> travel with the memory.
\<close>

definition mark_elem ::
  "size_t \<Rightarrow> (nat \<times> u32) \<Rightarrow> (sstate \<times> size_t \<times> size_t) \<Rightarrow> (sstate \<times> size_t \<times> size_t)" where
  "mark_elem num_to_mark = (\<lambda>(idx, coin) (st, total_left, marked_so_far).
     let cur_marked =
           (drop_bit 32 ((ucast coin :: u64) * total_left) \<ge> num_to_mark - marked_so_far);
         marked_so_far' = marked_so_far + of_bool cur_marked
     in (st\<lparr>marked := (marked st)[idx := cur_marked],
            marked_prefix_sums := (marked_prefix_sums st)[idx := marked_so_far']\<rparr>,
         total_left - 1, marked_so_far'))"

function mark_loop ::
  "sstate \<Rightarrow> nat \<Rightarrow> nat \<Rightarrow> nat \<Rightarrow> size_t \<Rightarrow> size_t \<Rightarrow> int + sstate" where
  "mark_loop st base n i total_left marked_so_far =
     (if i < n then
        let elems_to_mark = min (n - i) MARK_COINS in
        case rand_read elems_to_mark (rng st) of
          Inl ret \<Rightarrow> Inl ret
        | Inr (coins, r) \<Rightarrow>
            (case fold (mark_elem (of_nat (n div 2)))
                       (zip [base + i..<base + i + elems_to_mark] coins)
                       (st\<lparr>rng := r\<rparr>, total_left, marked_so_far) of
               (st', total_left', marked_so_far') \<Rightarrow>
                 mark_loop st' base n (i + MARK_COINS) total_left' marked_so_far')
      else Inr st)"
  by pat_completeness auto
termination
  by (relation "measure (\<lambda>(st, base, n, i, tot, msf). n - i)") (auto simp: MARK_COINS_def)

declare mark_loop.simps [simp del]

text \<open>\<^verbatim>\<open>shuffle(arr, marked, marked_prefix_sums, length)\<close> with the arrays at \<open>base\<close>.\<close>

fun shuffle :: "sstate \<Rightarrow> nat \<Rightarrow> nat \<Rightarrow> int + sstate" where
  "shuffle st base n =
     (if n < 2 then Inr st
      else if n = 2 then
        (case rand_bit (rng st) of
           Inl ret \<Rightarrow> Inl ret
         | Inr (cond, r) \<Rightarrow> Inr (o_memswap (st\<lparr>rng := r\<rparr>) base (base + 1) cond))
      else
        (case mark_loop st base n 0 (of_nat n) 0 of
           Inl ret \<Rightarrow> Inl ret
         | Inr st1 \<Rightarrow>
             (case shuffle (compact st1 base n 0) base (n div 2) of
                Inl ret \<Rightarrow> Inl ret
              | Inr st2 \<Rightarrow> shuffle st2 (base + n div 2) (n div 2))))"

declare shuffle.simps [simp del]

text \<open>
  The index pairs a run over \<open>n\<close> cells at \<open>base\<close> hands to \<^verbatim>\<open>o_memswap\<close>, as a
  function of \<open>base\<close> and \<open>n\<close> alone: those of the swap loop, of \<open>compact\<close> and of
  \<open>shuffle\<close>.  \<open>issued st st'\<close> is what a run from \<open>st\<close> to \<open>st'\<close> has logged.
\<close>

definition swap_pairs :: "nat \<Rightarrow> nat \<Rightarrow> (nat \<times> nat) list" where
  "swap_pairs base n = map (\<lambda>i. (base + i, base + i + n div 2)) [0..<n div 2]"

fun compact_pairs :: "nat \<Rightarrow> nat \<Rightarrow> (nat \<times> nat) list" where
  "compact_pairs base n =
     (if n < 2 then []
      else if n = 2 then [(base, base + 1)]
      else compact_pairs base (n div 2) @ compact_pairs (base + n div 2) (n div 2)
           @ swap_pairs base n)"

declare compact_pairs.simps [simp del]

fun shuffle_pairs :: "nat \<Rightarrow> nat \<Rightarrow> (nat \<times> nat) list" where
  "shuffle_pairs base n =
     (if n < 2 then []
      else if n = 2 then [(base, base + 1)]
      else compact_pairs base n @ shuffle_pairs base (n div 2)
           @ shuffle_pairs (base + n div 2) (n div 2))"

declare shuffle_pairs.simps [simp del]

definition issued :: "sstate \<Rightarrow> sstate \<Rightarrow> (nat \<times> nat) list" where
  "issued st st' = drop (length (trace st)) (trace st')"

section \<open>The task pool\<close>

text \<open>
  Modelled from the spec: the pool functions \<^verbatim>\<open>thread_work_push\<close>,
  \<^verbatim>\<open>thread_work_until_empty\<close> and \<^verbatim>\<open>thread_wait\<close> for a \<^verbatim>\<open>THREAD_WORK_ITER\<close> item are
  not part of the sources at hand.  An iter-task with \<open>count\<close> shards runs
  \<^verbatim>\<open>func(arg, i)\<close> once for every \<open>i\<close> below \<open>count\<close>; the shards write disjoint cells
  and meet only in the atomic update of the shared status, so a run is determined by the
  order in which the shards finish.  \<open>schedule\<close> is that order.
\<close>

definition is_schedule :: "nat \<Rightarrow> nat list \<Rightarrow> bool" where
  "is_schedule k schedule = (mset schedule = mset [0..<k])"

definition thread_work_iter :: "('s \<Rightarrow> nat \<Rightarrow> 's) \<Rightarrow> nat list \<Rightarrow> 's \<Rightarrow> 's" where
  "thread_work_iter func schedule s = fold (\<lambda>i s. func s i) schedule s"

text \<open>
  \<^verbatim>\<open>__atomic_compare_exchange_n(ptr, expected, desired, ...)\<close>: if \<^verbatim>\<open>*ptr\<close> equals
  \<^verbatim>\<open>*expected\<close>, \<^verbatim>\<open>desired\<close> is stored in \<^verbatim>\<open>*ptr\<close>; otherwise \<^verbatim>\<open>*ptr\<close> is copied
  into \<^verbatim>\<open>*expected\<close>.  The result is the pair of the new \<^verbatim>\<open>*ptr\<close> and the new
  \<^verbatim>\<open>*expected\<close>.
\<close>

definition atomic_compare_exchange_n :: "int \<Rightarrow> int \<Rightarrow> int \<Rightarrow> int \<times> int" where
  "atomic_compare_exchange_n ptr expected desired =
     (if ptr = expected then (desired, expected) else (ptr, ptr))"

section \<open>Assignment of the ORP ids in \<^verbatim>\<open>orshuffle.c\<close>\<close>

record assign_random_id_args =
  a_arr :: "elem list"
  a_length :: size_t
  a_start_idx :: size_t
  a_num_threads :: size_t
  a_ret :: int

text \<open>
  The loop of \<^verbatim>\<open>assign_random_id\<close> over the cells \<open>js\<close>: eight random bytes, two words
  of the source with the low word first, become the ORP id of each cell; the first failing
  read ends the loop with its status.
\<close>

fun assign_ids :: "nat list \<Rightarrow> elem list \<Rightarrow> entropy \<Rightarrow> int \<times> elem list \<times> entropy" where
  "assign_ids [] a r = (0, a, r)"
| "assign_ids (j # js) a r =
     (case rand_read 2 r of
        Inl ret \<Rightarrow> (ret, a, r)
      | Inr (ws, r') \<Rightarrow>
          assign_ids js
            (a[j := (a ! j)\<lparr>orp_id := ucast (ws ! 0) OR push_bit 32 (ucast (ws ! 1))\<rparr>]) r')"

definition assign_random_id ::
  "assign_random_id_args \<times> entropy \<Rightarrow> nat \<Rightarrow> assign_random_id_args \<times> entropy" where
  "assign_random_id = (\<lambda>(args, r) i.
     let start = unat ((of_nat i :: size_t) * a_length args div a_num_threads args);
         end = unat ((of_nat i + 1 :: size_t) * a_length args div a_num_threads args)
     in case assign_ids [start..<end] (a_arr args) r of
          (ret, a, r') \<Rightarrow>
            (if ret \<noteq> 0
             then (args\<lparr>a_arr := a, a_ret := fst (atomic_compare_exchange_n (a_ret args) 0 ret)\<rparr>, r')
             else (args\<lparr>a_arr := a\<rparr>, r')))"

text \<open>
  The part of \<^verbatim>\<open>orshuffle_sort\<close> between the shuffle and the sort: the arguments of the
  iter-task as the source initialises them, the task with \<^verbatim>\<open>num_threads\<close> shards, and
  the test of the shared status.
\<close>

definition orshuffle_sort_assign_ids ::
  "elem list \<Rightarrow> nat \<Rightarrow> nat \<Rightarrow> nat list \<Rightarrow> entropy \<Rightarrow> int + (elem list \<times> entropy)" where
  "orshuffle_sort_assign_ids arr0 n num_threads schedule r =
     (let assign_random_id_args =
            \<lparr>a_arr = arr0, a_length = 0, a_start_idx = of_nat n,
             a_num_threads = of_nat num_threads, a_ret = 0\<rparr>
      in case thread_work_iter assign_random_id schedule (assign_random_id_args, r) of
           (args, r') \<Rightarrow> if a_ret args \<noteq> 0 then Inl (a_ret args) else Inr (a_arr args, r'))"

section \<open>The external merge sort of \<^verbatim>\<open>nonoblivious.c\<close>\<close>

definition BUF_SIZE :: nat where "BUF_SIZE = 1024"

definition CEIL_DIV :: "nat \<Rightarrow> nat \<Rightarrow> nat" where
  "CEIL_DIV a b = (a + b - 1) div b"

text \<open>
  The C library's \<^verbatim>\<open>qsort\<close> with \<^verbatim>\<open>mergesort_comparator\<close>: the cells come out in
  non-decreasing order of the pair (key, orp_id).  The library leaves the order of equal
  cells open; the model keeps it.
\<close>

fun qsort_insert :: "elem \<Rightarrow> elem list \<Rightarrow> elem list" where
  "qsort_insert x [] = [x]"
| "qsort_insert x (y # ys) =
     (if mergesort_comparator x y \<le> 0 then x # y # ys else y # qsort_insert x ys)"

definition qsort :: "elem list \<Rightarrow> elem list" where
  "qsort xs = foldr qsort_insert xs []"

record mergesort_first_pass_args =
  f_arr :: "elem list"
  f_length :: nat

definition mergesort_first_pass :: "mergesort_first_pass_args \<Rightarrow> nat \<Rightarrow> mergesort_first_pass_args" where
  "mergesort_first_pass args run_idx =
     (let run_start = run_idx * BUF_SIZE;
          run_length = min (f_length args - run_start) BUF_SIZE
      in args\<lparr>f_arr := take run_start (f_arr args)
                         @ qsort (take run_length (drop run_start (f_arr args)))
                         @ drop (run_start + run_length) (f_arr args)\<rparr>)"

record mergesort_pass_args =
  m_input :: "elem list"
  m_output :: "elem list"
  m_length :: nat
  m_run_length :: nat
  m_ret :: int

text \<open>
  The scan for the run with the lowest head.  \<^verbatim>\<open>merge_indices\<close> has \<^verbatim>\<open>num_runs\<close>
  entries, so the scan runs over its indices.  \<^verbatim>\<open>lowest_run\<close> and \<^verbatim>\<open>lowest_idx\<close> are
  not initialised in C and not read before the first assignment; the model starts them at 0.
\<close>

definition scan_step ::
  "mergesort_pass_args \<Rightarrow> nat \<Rightarrow> nat list \<Rightarrow> nat \<Rightarrow> bool \<times> nat \<times> nat \<Rightarrow> bool \<times> nat \<times> nat" where
  "scan_step args run_start merge_indices j = (\<lambda>(all_done, lowest_run, lowest_idx).
     let run_idx = j * m_run_length args + merge_indices ! j in
     if merge_indices ! j \<ge> m_run_length args \<or> run_start + run_idx \<ge> m_length args
     then (all_done, lowest_run, lowest_idx)
     else if all_done
             \<or> mergesort_comparator (m_input args ! (run_start + run_idx))
                                      (m_input args ! (run_start + lowest_idx)) < 0
     then (False, j, run_idx)
     else (False, lowest_run, lowest_idx))"

definition scan_lowest :: "mergesort_pass_args \<Rightarrow> nat \<Rightarrow> nat list \<Rightarrow> bool \<times> nat \<times> nat" where
  "scan_lowest args run_start merge_indices =
     fold (scan_step args run_start merge_indices) [0..<length merge_indices] (True, 0, 0)"

lemma scan_step_found:
  "scan_step args rs mi j (d, lr, li) = (d', lr', li') \<Longrightarrow> j < length mi \<Longrightarrow>
   (\<not> d \<longrightarrow> lr < length mi \<and> mi ! lr < m_run_length args) \<Longrightarrow>
   (\<not> d' \<longrightarrow> lr' < length mi \<and> mi ! lr' < m_run_length args)"
  by (auto simp: scan_step_def Let_def split: if_splits)

lemma scan_fold_found:
  "fold (scan_step args rs mi) js (d, lr, li) = (d', lr', li') \<Longrightarrow> set js \<subseteq> {..<length mi} \<Longrightarrow>
   (\<not> d \<longrightarrow> lr < length mi \<and> mi ! lr < m_run_length args) \<Longrightarrow>
   (\<not> d' \<longrightarrow> lr' < length mi \<and> mi ! lr' < m_run_length args)"
proof (induction js arbitrary: d lr li)
  case Nil
  then show ?case by simp
next
  case (Cons j js)
  obtain d1 lr1 li1 where s: "scan_step args rs mi j (d, lr, li) = (d1, lr1, li1)"
    by (metis prod_cases3)
  have j: "j < length mi" using Cons.prems(2) by simp
  have f: "fold (scan_step args rs mi) js (d1, lr1, li1) = (d', lr', li')"
    using Cons.prems(1) s by simp
  have sub: "set js \<subseteq> {..<length mi}" using Cons.prems(2) by simp
  show ?case
    by (rule Cons.IH [OF f sub scan_step_found [OF s j Cons.prems(3)]])
qed

lemma scan_lowest_found:
  assumes "scan_lowest args run_start mi = (False, lr, li)"
  shows "lr < length mi \<and> mi ! lr < m_run_length args"
proof -
  have "\<not> False \<longrightarrow> lr < length mi \<and> mi ! lr < m_run_length args"
    by (rule scan_fold_found [OF assms [unfolded scan_lowest_def]]) auto
  then show ?thesis by simp
qed

lemma sum_list_update_less:
  "i < length (xs :: nat list) \<Longrightarrow> xs ! i < r \<Longrightarrow>
   sum_list (map (\<lambda>m. r - m) (xs[i := xs ! i + 1])) < sum_list (map (\<lambda>m. r - m) xs)"
proof (induction xs arbitrary: i)
  case Nil
  then show ?case by simp
next
  case (Cons x xs)
  then show ?case by (cases i) auto
qed

text \<open>The merge loop of \<^verbatim>\<open>mergesort_pass\<close>.\<close>

function merge_loop ::
  "mergesort_pass_args \<Rightarrow> nat \<Rightarrow> nat list \<Rightarrow> nat \<Rightarrow> mergesort_pass_args" where
  "merge_loop args run_start merge_indices output_idx =
     (case scan_lowest args run_start merge_indices of
        (all_done, lowest_run, lowest_idx) \<Rightarrow>
          if all_done then args
          else merge_loop
                 (args\<lparr>m_output := (m_output args)
                           [run_start + output_idx := m_input args ! (run_start + lowest_idx)]\<rparr>)
                 run_start
                 (merge_indices[lowest_run := merge_indices ! lowest_run + 1])
                 (output_idx + 1))"
  by pat_completeness auto

termination
proof (relation "measure (\<lambda>(args, rs, mi, oi). sum_list (map (\<lambda>m. m_run_length args - m) mi))",
    goal_cases)
  case 1
  show ?case by simp
next
  case (2 args run_start merge_indices output_idx all_done y lowest_run lowest_idx)
  then have "scan_lowest args run_start merge_indices = (False, lowest_run, lowest_idx)"
    by simp
  from scan_lowest_found [OF this] sum_list_update_less [of lowest_run merge_indices]
  show ?case using 2 by auto
qed

declare merge_loop.simps [simp del]

text \<open>
  \<^verbatim>\<open>mergesort_pass(args, run_idx)\<close>.  \<open>alloc_errno\<close> is 0 when \<^verbatim>\<open>malloc\<close> delivers the
  index buffer and otherwise the \<^verbatim>\<open>errno\<close> it leaves behind when it returns NULL.  At
  the exit a non-zero status goes through
  \<^verbatim>\<open>__atomic_compare_exchange_n(&args->ret, &ret, 0, ...)\<close>.
\<close>

definition mergesort_pass :: "(nat \<Rightarrow> int) \<Rightarrow> mergesort_pass_args \<Rightarrow> nat \<Rightarrow> mergesort_pass_args" where
  "mergesort_pass alloc_errno args run_idx =
     (let run_start = run_idx * m_run_length args * BUF_SIZE;
          num_runs = min (CEIL_DIV (m_length args - run_start) (m_run_length args)) BUF_SIZE
      in if alloc_errno run_idx \<noteq> 0 then
           (let ret = alloc_errno run_idx
            in args\<lparr>m_ret := fst (atomic_compare_exchange_n (m_ret args) ret 0)\<rparr>)
         else merge_loop args run_start (replicate num_runs 0) 0)"

text \<open>
  \<^verbatim>\<open>mergesort(arr, out, length)\<close>.  The loop over the run lengths carries the two
  buffers in their current roles and whether the current input is the caller's \<^verbatim>\<open>out\<close>.
  \<open>schedule k\<close> is the order of the shards of the task with \<open>k\<close> shards, \<open>alloc_errno\<close>
  the outcome of the allocation in each shard.
\<close>

function mergesort_passes ::
  "(nat \<Rightarrow> nat list) \<Rightarrow> (nat \<Rightarrow> int) \<Rightarrow> nat \<Rightarrow> nat \<Rightarrow> elem list \<Rightarrow> elem list \<Rightarrow> bool
   \<Rightarrow> int + (elem list \<times> elem list \<times> bool)" where
  "mergesort_passes schedule alloc_errno n run_length input output input_is_out =
     (if 0 < run_length \<and> run_length < n then
        let args = \<lparr>m_input = input, m_output = output, m_length = n,
                    m_run_length = run_length, m_ret = 0\<rparr>;
            args' = thread_work_iter (mergesort_pass alloc_errno)
                      (schedule (CEIL_DIV n (run_length * BUF_SIZE))) args;
            ret = m_ret args'
        in if ret \<noteq> 0 then Inl ret
           else mergesort_passes schedule alloc_errno n (run_length * BUF_SIZE)
                  (m_output args') (m_input args') (\<not> input_is_out)
      else Inr (input, output, input_is_out))"
  by pat_completeness auto
termination
proof (relation "measure (\<lambda>(s, a, n, rl, i, out, b). n - rl)", goal_cases)
  case 1
  show ?case by simp
next
  case (2 schedule alloc_errno n run_length inp outp input_is_out args args' ret)
  then have "0 < run_length" "run_length < n" by simp_all
  then have "n - run_length * BUF_SIZE < n - run_length"
    by (simp add: BUF_SIZE_def)
  then show ?case by simp
qed

declare mergesort_passes.simps [simp del]

definition mergesort ::
  "(nat \<Rightarrow> nat list) \<Rightarrow> (nat \<Rightarrow> int) \<Rightarrow> elem list \<Rightarrow> elem list \<Rightarrow> nat
   \<Rightarrow> int + (elem list \<times> elem list)" where
  "mergesort schedule alloc_errno arr0 out n =
     (let args = \<lparr>f_arr = arr0, f_length = n\<rparr>;
          args' = thread_work_iter mergesort_first_pass (schedule (CEIL_DIV n BUF_SIZE)) args
      in case mergesort_passes schedule alloc_errno n BUF_SIZE (f_arr args') out False of
           Inl ret \<Rightarrow> Inl ret
         | Inr (input, output, input_is_out) \<Rightarrow>
             if input_is_out then Inr (output, input)
             else Inr (input, take n input @ drop n output))"

section \<open>The sample partition of \<^verbatim>\<open>nonoblivious.c\<close>\<close>

definition SAMPLE_PARTITION_BUF_SIZE :: size_t where "SAMPLE_PARTITION_BUF_SIZE = 512"

text \<open>
  The share of a worker as \<^verbatim>\<open>distributed_sample_partition\<close> and \<^verbatim>\<open>nonoblivious_sort\<close>
  compute it, in \<^verbatim>\<open>size_t\<close> arithmetic.
\<close>

definition src_local_start :: "size_t \<Rightarrow> nat \<Rightarrow> nat \<Rightarrow> size_t" where
  "src_local_start total_length world_rank world_size =
     total_length * of_nat world_rank div of_nat world_size"

definition src_local_length :: "size_t \<Rightarrow> nat \<Rightarrow> nat \<Rightarrow> size_t" where
  "src_local_length total_length world_rank world_size =
     total_length * (of_nat world_rank + 1) div of_nat world_size
       - src_local_start total_length world_rank world_size"

text \<open>
  \<^verbatim>\<open>local_start\<close> and \<^verbatim>\<open>local_length\<close> as \<^verbatim>\<open>main\<close> of \<^verbatim>\<open>host/parallel.c\<close>
  computes them, in \<^verbatim>\<open>size_t\<close> arithmetic: the host allocates the array of a worker,
  fills it and checks the result by this share.
\<close>

definition host_local_start :: "size_t \<Rightarrow> nat \<Rightarrow> nat \<Rightarrow> size_t" where
  "host_local_start length0 world_rank world_size =
     (of_nat world_rank * length0 + of_nat world_size - 1) div of_nat world_size"

definition host_local_length :: "size_t \<Rightarrow> nat \<Rightarrow> nat \<Rightarrow> size_t" where
  "host_local_length length0 world_rank world_size =
     ((of_nat world_rank + 1) * length0 + of_nat world_size - 1) div of_nat world_size
       - (of_nat world_rank * length0 + of_nat world_size - 1) div of_nat world_size"

text \<open>
  The share as the specification words it:
  \<open>\<lceil>(r + 1) N / W\<rceil> - \<lceil>r N / W\<rceil>\<close>.
\<close>

definition spec_local_length :: "nat \<Rightarrow> nat \<Rightarrow> nat \<Rightarrow> nat" where
  "spec_local_length N r W = CEIL_DIV ((r + 1) * N) W - CEIL_DIV (r * N) W"

text \<open>
  Modelled from the spec: the transport adapter (\<^verbatim>\<open>mpi_tls_isend_bytes\<close>,
  \<^verbatim>\<open>mpi_tls_irecv_bytes\<close>, \<^verbatim>\<open>mpi_tls_waitany\<close>), which is not part of the sources at
  hand.  Posting a request returns a status; \<open>posts\<close> holds the statuses of the posts still
  to come (0 once the list is used up).  \<^verbatim>\<open>waitany\<close> returns the index of a request
  that is not null together with the records a completed receive delivered, or fails with
  a status; \<open>events\<close> holds the completions still to come.  When no completion is left,
  or the next one names a request that is null or out of range, \<^verbatim>\<open>waitany\<close> does not
  return.  The array and the output buffer are the lists of their cells; a copy or a
  received chunk that would leave them has no defined behaviour in C, and the run ends
  as \<open>Overrun\<close>.
\<close>

datatype request_type = MPI_TLS_NULL | MPI_TLS_SEND | MPI_TLS_RECV

datatype completion = WaitFail int | Completed nat "elem list"

datatype 'a outcome = Returned 'a | Failed int | Blocked | Aborted | Overrun

record pstate =
  p_out :: "elem list"
  num_received :: size_t
  sample_scan_idxs :: "size_t list"
  requests :: "request_type list"
  requests_len :: size_t
  posts :: "int list"
  sent :: "(nat \<times> elem list) list"

definition post_request :: "pstate \<Rightarrow> int \<times> pstate" where
  "post_request st = (case posts st of [] \<Rightarrow> (0, st) | e # es \<Rightarrow> (e, st\<lparr>posts := es\<rparr>))"

definition mpi_tls_waitany ::
  "request_type list \<Rightarrow> completion \<Rightarrow> (int + nat \<times> elem list) option" where
  "mpi_tls_waitany reqs event =
     (case event of
        WaitFail e \<Rightarrow> Some (Inl e)
      | Completed index data \<Rightarrow>
          if index < length reqs \<and> reqs ! index \<noteq> MPI_TLS_NULL
          then Some (Inr (index, data)) else None)"

text \<open>
  Posting the receive for the next chunk, and the send of the next chunk to \<open>i\<close>; both are
  used by the initial loop over the peers and by the completion loop.  The log \<open>sent\<close>
  keeps the cells of a chunk that lie inside the array.
\<close>

definition slice :: "elem list \<Rightarrow> size_t \<Rightarrow> size_t \<Rightarrow> elem list" where
  "slice xs start k = take (unat k) (drop (unat start) xs)"

definition post_recv :: "nat \<Rightarrow> pstate \<Rightarrow> int + pstate" where
  "post_recv i st =
     (case post_request st of
        (ret, st') \<Rightarrow> if ret \<noteq> 0 then Inl ret
                      else Inr (st'\<lparr>requests := (requests st')[i := MPI_TLS_RECV]\<rparr>))"

definition post_send :: "elem list \<Rightarrow> size_t list \<Rightarrow> nat \<Rightarrow> pstate \<Rightarrow> int + pstate" where
  "post_send arr0 sample_idxs i st =
     (let elems_to_send =
            min (sample_idxs ! i - sample_scan_idxs st ! i) SAMPLE_PARTITION_BUF_SIZE
      in case post_request st of
           (ret, st') \<Rightarrow>
             if ret \<noteq> 0 then Inl ret
             else Inr (st'\<lparr>requests := (requests st')[i := MPI_TLS_SEND],
                            sent := sent st' @ [(i, slice arr0 (sample_scan_idxs st ! i) elems_to_send)],
                            sample_scan_idxs :=
                              (sample_scan_idxs st')[i := sample_scan_idxs st ! i + elems_to_send]\<rparr>))"

definition retire :: "nat \<Rightarrow> pstate \<Rightarrow> pstate" where
  "retire i st = st\<lparr>requests := (requests st)[i := MPI_TLS_NULL], requests_len := requests_len st - 1\<rparr>"

text \<open>The loop that constructs the initial requests, over the peers \<open>is\<close>.\<close>

fun initial_requests ::
  "elem list \<Rightarrow> size_t list \<Rightarrow> size_t \<Rightarrow> nat \<Rightarrow> nat list \<Rightarrow> pstate \<Rightarrow> int + pstate" where
  "initial_requests arr0 sample_idxs src_len world_rank [] st = Inr st"
| "initial_requests arr0 sample_idxs src_len world_rank (i # is) st =
     (if i = world_rank then
        (let elems_to_recv = min (src_len - num_received st) SAMPLE_PARTITION_BUF_SIZE in
         if elems_to_recv > 0 then
           (case post_recv i st of
              Inl ret \<Rightarrow> Inl ret
            | Inr st' \<Rightarrow> initial_requests arr0 sample_idxs src_len world_rank is st')
         else initial_requests arr0 sample_idxs src_len world_rank is (retire i st))
      else if sample_scan_idxs st ! i < sample_idxs ! i then
        (case post_send arr0 sample_idxs i st of
           Inl ret \<Rightarrow> Inl ret
         | Inr st' \<Rightarrow> initial_requests arr0 sample_idxs src_len world_rank is st')
      else initial_requests arr0 sample_idxs src_len world_rank is (retire i st))"

text \<open>The loop over the completed requests.\<close>

fun completion_loop ::
  "elem list \<Rightarrow> size_t list \<Rightarrow> size_t \<Rightarrow> nat \<Rightarrow> completion list \<Rightarrow> pstate \<Rightarrow> pstate outcome" where
  "completion_loop arr0 sample_idxs src_len world_rank [] st =
     (if requests_len st = 0 then Returned st else Blocked)"
| "completion_loop arr0 sample_idxs src_len world_rank (event # events) st =
     (if requests_len st = 0 then Returned st
      else case mpi_tls_waitany (requests st) event of
        None \<Rightarrow> Blocked
      | Some (Inl ret) \<Rightarrow> Failed ret
      | Some (Inr (index, data)) \<Rightarrow>
          if index = world_rank then
            (if length (p_out st) < unat (num_received st) + length data then Overrun
             else
               let st1 = st\<lparr>p_out := take (unat (num_received st)) (p_out st) @ data
                                     @ drop (unat (num_received st) + length data) (p_out st),
                           num_received := num_received st + of_nat (length data)\<rparr>;
                 elems_to_recv = min (src_len - num_received st1) SAMPLE_PARTITION_BUF_SIZE;
                 keep_rank = (elems_to_recv > 0)
               in if keep_rank then
                  (case post_recv index st1 of
                     Inl ret \<Rightarrow> Failed ret
                   | Inr st2 \<Rightarrow> completion_loop arr0 sample_idxs src_len world_rank events st2)
                else completion_loop arr0 sample_idxs src_len world_rank events (retire index st1))
          else
            (let keep_rank = (sample_idxs ! index - sample_scan_idxs st ! index > 0)
             in if keep_rank then
                  (case post_send arr0 sample_idxs index st of
                     Inl ret \<Rightarrow> Failed ret
                   | Inr st2 \<Rightarrow> completion_loop arr0 sample_idxs src_len world_rank events st2)
                else completion_loop arr0 sample_idxs src_len world_rank events (retire index st)))"

text \<open>
  \<^verbatim>\<open>distributed_sample_partition(arr, out, local_length, local_start, total_length)\<close> on
  the worker \<open>world_rank\<close> of \<open>world_size\<close>.  \<open>quickselect\<close> is what
  \<^verbatim>\<open>distributed_quickselect\<close> returned on this worker: its status, or the positions
  \<^verbatim>\<open>sample_idxs[0 .. world_size - 2]\<close>.  The result is the output buffer and the number of
  records placed in it (\<^verbatim>\<open>num_received\<close>; with a single worker, where the function
  copies \<^verbatim>\<open>total_length\<close> records and returns, that number).  The \<^verbatim>\<open>assert\<close> before
  the return aborts the run when it fails.
\<close>

definition distributed_sample_partition ::
  "nat \<Rightarrow> nat \<Rightarrow> (int + size_t list) \<Rightarrow> int list \<Rightarrow> completion list
   \<Rightarrow> elem list \<Rightarrow> elem list \<Rightarrow> size_t \<Rightarrow> size_t \<Rightarrow> (elem list \<times> size_t) outcome" where
  "distributed_sample_partition world_rank world_size quickselect post_statuses events
       arr0 out local_length total_length =
     (let src_len = src_local_length total_length world_rank world_size in
      if world_size = 1 then
        (if length arr0 < unat total_length \<or> length out < unat total_length then Overrun
         else Returned (slice arr0 0 total_length @ drop (unat total_length) out, total_length))
      else case quickselect of
        Inl ret \<Rightarrow> Failed ret
      | Inr idxs \<Rightarrow>
          (let sample_idxs = take (world_size - 1) idxs @ [local_length];
               scan_idxs = 0 # take (world_size - 1) idxs;
               num_recv = sample_idxs ! world_rank - scan_idxs ! world_rank;
               st = \<lparr>p_out = slice arr0 (scan_idxs ! world_rank) num_recv
                               @ drop (unat num_recv) out,
                     num_received = num_recv,
                     sample_scan_idxs = scan_idxs[world_rank := sample_idxs ! world_rank],
                     requests = replicate world_size MPI_TLS_NULL,
                     requests_len = of_nat world_size,
                     posts = post_statuses,
                     sent = []\<rparr>
           in if length arr0 < unat (scan_idxs ! world_rank) + unat num_recv
                 \<or> length out < unat num_recv then Overrun
              else case initial_requests arr0 sample_idxs src_len world_rank [0..<world_size] st of
                Inl ret \<Rightarrow> Failed ret
              | Inr st1 \<Rightarrow>
                  (case completion_loop arr0 sample_idxs src_len world_rank events st1 of
                     Returned st2 \<Rightarrow>
                       if num_received st2 = src_len then Returned (p_out st2, num_received st2)
                       else Aborted
                   | Failed ret \<Rightarrow> Failed ret
                   | Blocked \<Rightarrow> Blocked
                   | Aborted \<Rightarrow> Aborted
                   | Overrun \<Rightarrow> Overrun)))"

text \<open>
  The invariants of the two request loops: \<open>live\<close> counts the requests that are not null;
  during the completion loop \<^verbatim>\<open>requests_len\<close> is that count, and the receive request is
  null only when the worker has received its share; during the initial loop the peers still
  to come are counted as well.
\<close>

definition live :: "request_type list \<Rightarrow> nat" where
  "live reqs = length (filter (\<lambda>t. t \<noteq> MPI_TLS_NULL) reqs)"

definition cinv :: "nat \<Rightarrow> nat \<Rightarrow> size_t \<Rightarrow> pstate \<Rightarrow> bool" where
  "cinv W r src st \<longleftrightarrow>
     length (requests st) = W \<and> unat (requests_len st) = live (requests st)
     \<and> (requests st ! r = MPI_TLS_NULL \<longrightarrow> num_received st = src)"

definition iinv :: "nat \<Rightarrow> nat \<Rightarrow> size_t \<Rightarrow> nat list \<Rightarrow> pstate \<Rightarrow> bool" where
  "iinv W r src is st \<longleftrightarrow>
     length (requests st) = W \<and> distinct is
     \<and> (\<forall>i\<in>set is. i < W \<and> requests st ! i = MPI_TLS_NULL)
     \<and> unat (requests_len st) = live (requests st) + length is
     \<and> (r \<notin> set is \<longrightarrow> requests st ! r = MPI_TLS_NULL \<longrightarrow> num_received st = src)"

text \<open>
  Notions for the correctness of \<open>compact\<close>, all about the \<open>n\<close> cells at \<open>base\<close>:
  the cells themselves (\<open>window\<close>), the number of marked cells (\<open>mcount\<close>), the marked
  and the unmarked records in their order of appearance (\<open>melems\<close>, \<open>uelems\<close>), and the
  consistency of the prefix sums, which count the marks up to and including each cell,
  from a start value \<open>c\<close> (0 for an array that \<open>shuffle\<close> has marked).  \<open>swapped\<close>
  is the array after the first \<open>k\<close> rounds of the swap loop.
\<close>

definition swapped :: "elem list \<Rightarrow> nat \<Rightarrow> nat \<Rightarrow> nat \<Rightarrow> (nat \<Rightarrow> bool) \<Rightarrow> nat \<Rightarrow> elem" where
  "swapped xs base h k c j =
     (if base \<le> j \<and> j < base + k \<and> c (j - base) then xs ! (j + h)
      else if base + h \<le> j \<and> j < base + h + k \<and> c (j - base - h) then xs ! (j - h)
      else xs ! j)"

definition mcount :: "sstate \<Rightarrow> nat \<Rightarrow> nat \<Rightarrow> nat" where
  "mcount st base n = length (filter (\<lambda>i. marked st ! i) [base..<base + n])"

definition melems :: "sstate \<Rightarrow> nat \<Rightarrow> nat \<Rightarrow> elem list" where
  "melems st base n = map (\<lambda>i. arr st ! i) (filter (\<lambda>i. marked st ! i) [base..<base + n])"

definition pfx_ok :: "size_t \<Rightarrow> sstate \<Rightarrow> nat \<Rightarrow> nat \<Rightarrow> bool" where
  "pfx_ok c st base n =
     list_all (\<lambda>i. marked_prefix_sums st ! (base + i) = c + of_nat (mcount st base (Suc i)))
       [0..<n]"

definition uelems :: "sstate \<Rightarrow> nat \<Rightarrow> nat \<Rightarrow> elem list" where
  "uelems st base n = map (\<lambda>i. arr st ! i) (filter (\<lambda>i. \<not> marked st ! i) [base..<base + n])"

definition window :: "sstate \<Rightarrow> nat \<Rightarrow> nat \<Rightarrow> elem list" where
  "window st base n = take n (drop base (arr st))"

section \<open>The distributed quickselect of \<^verbatim>\<open>nonoblivious.c\<close>\<close>

record sample =
  s_key :: u64
  s_orp_id :: u64

definition elem_sample_comparator :: "elem \<Rightarrow> sample \<Rightarrow> int" where
  "elem_sample_comparator a b =
     (let comp_key = comp3 (key a) (s_key b);
          comp_orp_id = comp3 (orp_id a) (s_orp_id b)
      in push_bit 1 comp_key + comp_orp_id)"

datatype partition_state = PARTITION_SCAN_LEFT | PARTITION_SCAN_RIGHT

text \<open>
  The partition loop of \<^verbatim>\<open>distributed_quickselect_helper\<close> on one worker.  The result
  is the array with \<^verbatim>\<open>partition_left\<close> and \<^verbatim>\<open>partition_right\<close> as the loop leaves them.
\<close>

function partition_loop ::
  "elem list \<Rightarrow> sample \<Rightarrow> nat \<Rightarrow> nat \<Rightarrow> partition_state \<Rightarrow> elem list \<times> nat \<times> nat" where
  "partition_loop a pivot partition_left partition_right partition_state =
     (if partition_left < partition_right then
        (case partition_state of
           PARTITION_SCAN_LEFT \<Rightarrow>
             if elem_sample_comparator (a ! partition_left) pivot > 0
             then partition_loop a pivot partition_left partition_right PARTITION_SCAN_RIGHT
             else partition_loop a pivot (partition_left + 1) partition_right PARTITION_SCAN_LEFT
         | PARTITION_SCAN_RIGHT \<Rightarrow>
             if elem_sample_comparator (a ! (partition_right - 1)) pivot < 0
             then partition_loop
                    (a[partition_right - 1 := a ! partition_left,
                       partition_left := a ! (partition_right - 1)])
                    pivot (partition_left + 1) (partition_right - 1) PARTITION_SCAN_LEFT
             else partition_loop a pivot partition_left (partition_right - 1) PARTITION_SCAN_RIGHT)
      else (a, partition_left, partition_right))"
  by pat_completeness auto
termination
  by (relation "measure (\<lambda>(a, pivot, pl, pr, s).
        2 * (pr - pl) + (case s of PARTITION_SCAN_LEFT \<Rightarrow> 1 | PARTITION_SCAN_RIGHT \<Rightarrow> 0))")
     auto

declare partition_loop.simps [simp del]

text \<open>
  The partition of one worker's slice \<open>[left, right)\<close> around the pivot: the master leaves
  the pivot's cell out of the loop and swaps the pivot to the boundary afterwards.
\<close>

definition partition_worker ::
  "elem list \<Rightarrow> sample \<Rightarrow> nat \<Rightarrow> nat \<Rightarrow> bool \<Rightarrow> elem list \<times> nat \<times> nat" where
  "partition_worker a pivot left right is_master =
     (case partition_loop a pivot (left + of_bool is_master) right PARTITION_SCAN_LEFT of
        (a', partition_left, partition_right) \<Rightarrow>
          if is_master
          then (a'[partition_right - 1 := a' ! left, left := a' ! (partition_right - 1)],
                partition_left, partition_right - 1)
          else (a', partition_left, partition_right))"

text \<open>
  Modelled from the spec: \<^verbatim>\<open>bsearch_ge\<close> of the utility code, which is not part of the
  sources at hand: the index of the first target that is not below the key, in a sorted
  array of targets.
\<close>

definition bsearch_ge :: "nat \<Rightarrow> nat list \<Rightarrow> nat" where
  "bsearch_ge k targets = length (takeWhile (\<lambda>t. t < k) targets)"

lemma partition_loop_exit:
  "\<not> pl < pr \<Longrightarrow> partition_loop a pivot pl pr s = (a, pl, pr)"
  by (subst partition_loop.simps) simp

lemma partition_loop_left_gt:
  "pl < pr \<Longrightarrow> elem_sample_comparator (a ! pl) pivot > 0 \<Longrightarrow>
   partition_loop a pivot pl pr PARTITION_SCAN_LEFT
     = partition_loop a pivot pl pr PARTITION_SCAN_RIGHT"
  by (subst partition_loop.simps) simp

lemma partition_loop_left_le:
  "pl < pr \<Longrightarrow> \<not> elem_sample_comparator (a ! pl) pivot > 0 \<Longrightarrow>
   partition_loop a pivot pl pr PARTITION_SCAN_LEFT
     = partition_loop a pivot (pl + 1) pr PARTITION_SCAN_LEFT"
  by (subst partition_loop.simps) simp

lemma partition_loop_right_lt:
  "pl < pr \<Longrightarrow> elem_sample_comparator (a ! (pr - 1)) pivot < 0 \<Longrightarrow>
   partition_loop a pivot pl pr PARTITION_SCAN_RIGHT
     = partition_loop (a[pr - 1 := a ! pl, pl := a ! (pr - 1)]) pivot (pl + 1) (pr - 1)
         PARTITION_SCAN_LEFT"
  by (subst partition_loop.simps) simp

lemma partition_loop_right_ge:
  "pl < pr \<Longrightarrow> \<not> elem_sample_comparator (a ! (pr - 1)) pivot < 0 \<Longrightarrow>
   partition_loop a pivot pl pr PARTITION_SCAN_RIGHT
     = partition_loop a pivot pl (pr - 1) PARTITION_SCAN_RIGHT"
  by (subst partition_loop.simps) simp

text \<open>An invariant of the four steps holds when the loop is left.\<close>

lemma partition_loop_rule:
  assumes init: "I a pl pr s"
    and res: "partition_loop a pivot pl pr s = (a', pl', pr')"
    and left_gt: "\<And>a pl pr. I a pl pr PARTITION_SCAN_LEFT \<Longrightarrow> pl < pr \<Longrightarrow>
        elem_sample_comparator (a ! pl) pivot > 0 \<Longrightarrow> I a pl pr PARTITION_SCAN_RIGHT"
    and left_le: "\<And>a pl pr. I a pl pr PARTITION_SCAN_LEFT \<Longrightarrow> pl < pr \<Longrightarrow>
        \<not> elem_sample_comparator (a ! pl) pivot > 0 \<Longrightarrow> I a (pl + 1) pr PARTITION_SCAN_LEFT"
    and right_lt: "\<And>a pl pr. I a pl pr PARTITION_SCAN_RIGHT \<Longrightarrow> pl < pr \<Longrightarrow>
        elem_sample_comparator (a ! (pr - 1)) pivot < 0 \<Longrightarrow>
        I (a[pr - 1 := a ! pl, pl := a ! (pr - 1)]) (pl + 1) (pr - 1) PARTITION_SCAN_LEFT"
    and right_ge: "\<And>a pl pr. I a pl pr PARTITION_SCAN_RIGHT \<Longrightarrow> pl < pr \<Longrightarrow>
        \<not> elem_sample_comparator (a ! (pr - 1)) pivot < 0 \<Longrightarrow> I a pl (pr - 1) PARTITION_SCAN_RIGHT"
  shows "\<exists>s'. I a' pl' pr' s' \<and> \<not> pl' < pr'"
  using assms
proof (induction a pivot pl pr s rule: partition_loop.induct)
  case (1 a pivot pl pr s)
  note steps = "1.prems"(3-6)
  show ?case
  proof (cases "pl < pr")
    case False
    with "1.prems"(1,2) show ?thesis by (auto simp: partition_loop_exit)
  next
    case True
    show ?thesis
    proof (cases s)
      case PARTITION_SCAN_LEFT
      show ?thesis
      proof (cases "elem_sample_comparator (a ! pl) pivot > 0")
        case c: True
        have i: "I a pl pr PARTITION_SCAN_RIGHT"
          using "1.prems"(1) PARTITION_SCAN_LEFT True c by (intro "1.prems"(3)) simp_all
        have r: "partition_loop a pivot pl pr PARTITION_SCAN_RIGHT = (a', pl', pr')"
          using "1.prems"(2) by (simp add: PARTITION_SCAN_LEFT partition_loop_left_gt [OF True c])
        show ?thesis
          by (rule "1.IH"(1) [OF True PARTITION_SCAN_LEFT c i r steps])
      next
        case c: False
        have i: "I a (pl + 1) pr PARTITION_SCAN_LEFT"
          using "1.prems"(1) PARTITION_SCAN_LEFT True c by (intro "1.prems"(4)) simp_all
        have r: "partition_loop a pivot (pl + 1) pr PARTITION_SCAN_LEFT = (a', pl', pr')"
          using "1.prems"(2) by (simp add: PARTITION_SCAN_LEFT partition_loop_left_le [OF True c])
        show ?thesis
          by (rule "1.IH"(2) [OF True PARTITION_SCAN_LEFT c i r steps])
      qed
    next
      case PARTITION_SCAN_RIGHT
      show ?thesis
      proof (cases "elem_sample_comparator (a ! (pr - 1)) pivot < 0")
        case c: True
        have i: "I (a[pr - 1 := a ! pl, pl := a ! (pr - 1)]) (pl + 1) (pr - 1) PARTITION_SCAN_LEFT"
          using "1.prems"(1) PARTITION_SCAN_RIGHT True c by (intro "1.prems"(5)) simp_all
        have r: "partition_loop (a[pr - 1 := a ! pl, pl := a ! (pr - 1)]) pivot (pl + 1) (pr - 1)
                   PARTITION_SCAN_LEFT = (a', pl', pr')"
          using "1.prems"(2) by (simp add: PARTITION_SCAN_RIGHT partition_loop_right_lt [OF True c])
        show ?thesis
          by (rule "1.IH"(3) [OF True PARTITION_SCAN_RIGHT c i r steps])
      next
        case c: False
        have i: "I a pl (pr - 1) PARTITION_SCAN_RIGHT"
          using "1.prems"(1) PARTITION_SCAN_RIGHT True c by (intro "1.prems"(6)) simp_all
        have r: "partition_loop a pivot pl (pr - 1) PARTITION_SCAN_RIGHT = (a', pl', pr')"
          using "1.prems"(2) by (simp add: PARTITION_SCAN_RIGHT partition_loop_right_ge [OF True c])
        show ?thesis
          by (rule "1.IH"(4) [OF True PARTITION_SCAN_RIGHT c i r steps])
      qed
    qed
  qed
qed

lemma partition_loop_mono:
  assumes "partition_loop a pivot pl pr s = (a', pl', pr')"
  shows "pl \<le> pl' \<and> pr' \<le> pr"
proof -
  define I :: "elem list \<Rightarrow> nat \<Rightarrow> nat \<Rightarrow> partition_state \<Rightarrow> bool"
    where "I = (\<lambda>a x y s. pl \<le> x \<and> y \<le> pr)"
  have "\<exists>s'. I a' pl' pr' s' \<and> \<not> pl' < pr'"
    by (rule partition_loop_rule [of I, OF _ assms]) (auto simp: I_def)
  then show ?thesis by (simp add: I_def)
qed

lemma partition_worker_mono:
  assumes "partition_worker a pivot left right is_master = (a', pl, pr)"
  shows "left \<le> pl \<and> pr \<le> right \<and> (is_master \<longrightarrow> left < right \<longrightarrow> left < pl \<and> pr < right)"
proof -
  obtain a1 pl1 pr1 where
    l: "partition_loop a pivot (left + of_bool is_master) right PARTITION_SCAN_LEFT = (a1, pl1, pr1)"
    by (metis prod_cases3)
  from partition_loop_mono [OF l] have m: "left + of_bool is_master \<le> pl1" "pr1 \<le> right"
    by simp_all
  from assms l have "pl = pl1" "pr = (if is_master then pr1 - 1 else pr1)"
    by (auto simp: partition_worker_def split: if_splits)
  with m show ?thesis by (cases is_master) auto
qed


definition sample_of :: "elem \<Rightarrow> sample" where
  "sample_of e = \<lparr>s_key = key e, s_orp_id = orp_id e\<rparr>"

text \<open>
  The windows of all workers shrink from one round to the next; the measure of the
  recursion is their total size.
\<close>

definition slices_size :: "nat list \<Rightarrow> nat list \<Rightarrow> nat" where
  "slices_size lefts rights = sum_list (map (\<lambda>r. rights ! r - lefts ! r) [0..<length lefts])"

definition partition_all ::
  "elem list list \<Rightarrow> sample \<Rightarrow> nat list \<Rightarrow> nat list \<Rightarrow> nat \<Rightarrow> (elem list \<times> nat \<times> nat) list" where
  "partition_all arrs pivot lefts rights master_rank =
     map (\<lambda>r. partition_worker (arrs ! r) pivot (lefts ! r) (rights ! r) (r = master_rank))
       [0..<length lefts]"

lemma sum_list_strict_mono:
  assumes "length xs = length ys" "\<forall>i<length xs. (xs ! i :: nat) \<le> ys ! i"
    and "m < length xs" "xs ! m < ys ! m"
  shows "sum_list xs < sum_list ys"
  using assms
proof (induction xs ys arbitrary: m rule: list_induct2)
  case Nil
  then show ?case by simp
next
  case (Cons x xs y ys)
  have le: "sum_list xs \<le> sum_list ys"
    using Cons.prems(1) Cons.hyps(1)
    by (intro sum_list_mono2) auto
  show ?case
  proof (cases m)
    case 0
    with Cons.prems le show ?thesis by simp
  next
    case (Suc k)
    have "sum_list xs < sum_list ys"
      using Cons.prems Suc by (intro Cons.IH [of k]) auto
    moreover have "x \<le> y" using Cons.prems(1) by auto
    ultimately show ?thesis by simp
  qed
qed

lemma find_ready:
  assumes "find (\<lambda>r. lefts ! r < rights ! r) [0..<length lefts] = Some m"
  shows "m < length lefts \<and> lefts ! m < rights ! m"
  using assms by (auto simp: find_Some_iff)

lemma slices_size_left:
  assumes "find (\<lambda>r. lefts ! r < rights ! r) [0..<length lefts] = Some m"
  shows "slices_size lefts (map (snd \<circ> snd) (partition_all arrs pivot lefts rights m))
           < slices_size lefts rights"
  unfolding slices_size_def
proof (rule sum_list_strict_mono [where m = m])
  let ?parts = "partition_all arrs pivot lefts rights m"
  have m: "m < length lefts" "lefts ! m < rights ! m" using find_ready [OF assms] by simp_all
  have p: "map (snd \<circ> snd) ?parts ! r
      = snd (snd (partition_worker (arrs ! r) pivot (lefts ! r) (rights ! r) (r = m)))"
    if "r < length lefts" for r
    using that by (simp add: partition_all_def)
  have w: "snd (snd (partition_worker a pivot l r b)) \<le> r
      \<and> (b \<longrightarrow> l < r \<longrightarrow> snd (snd (partition_worker a pivot l r b)) < r)" for a l r b
    using partition_worker_mono [of a pivot l r b] by (metis prod.collapse)
  show "length (map (\<lambda>r. map (snd \<circ> snd) ?parts ! r - lefts ! r) [0..<length lefts])
      = length (map (\<lambda>r. rights ! r - lefts ! r) [0..<length lefts])" by simp
  show "\<forall>i<length (map (\<lambda>r. map (snd \<circ> snd) ?parts ! r - lefts ! r) [0..<length lefts]).
      map (\<lambda>r. map (snd \<circ> snd) ?parts ! r - lefts ! r) [0..<length lefts] ! i
        \<le> map (\<lambda>r. rights ! r - lefts ! r) [0..<length lefts] ! i"
    using w by (auto simp: p intro: diff_le_mono)
  show "m < length (map (\<lambda>r. map (snd \<circ> snd) ?parts ! r - lefts ! r) [0..<length lefts])"
    using m by simp
  show "map (\<lambda>r. map (snd \<circ> snd) ?parts ! r - lefts ! r) [0..<length lefts] ! m
      < map (\<lambda>r. rights ! r - lefts ! r) [0..<length lefts] ! m"
    using m w [of "arrs ! m" "lefts ! m" "rights ! m" True] by (simp add: p) linarith
qed

lemma slices_size_right:
  assumes "find (\<lambda>r. lefts ! r < rights ! r) [0..<length lefts] = Some m"
  shows "slices_size (map (fst \<circ> snd) (partition_all arrs pivot lefts rights m)) rights
           < slices_size lefts rights"
  unfolding slices_size_def
proof (rule sum_list_strict_mono [where m = m])
  let ?parts = "partition_all arrs pivot lefts rights m"
  have m: "m < length lefts" "lefts ! m < rights ! m" using find_ready [OF assms] by simp_all
  have l: "length ?parts = length lefts" by (simp add: partition_all_def)
  have p: "fst (snd (?parts ! r))
      = fst (snd (partition_worker (arrs ! r) pivot (lefts ! r) (rights ! r) (r = m)))"
    if "r < length lefts" for r
    using that by (simp add: partition_all_def)
  have w: "l \<le> fst (snd (partition_worker a pivot l r b))
      \<and> (b \<longrightarrow> l < r \<longrightarrow> l < fst (snd (partition_worker a pivot l r b)))" for a l r b
    using partition_worker_mono [of a pivot l r b] by (metis prod.collapse)
  show "length (map (\<lambda>r. rights ! r - map (fst \<circ> snd) ?parts ! r)
                  [0..<length (map (fst \<circ> snd) ?parts)])
      = length (map (\<lambda>r. rights ! r - lefts ! r) [0..<length lefts])" by (simp add: l)
  show "\<forall>i<length (map (\<lambda>r. rights ! r - map (fst \<circ> snd) ?parts ! r)
                  [0..<length (map (fst \<circ> snd) ?parts)]).
      map (\<lambda>r. rights ! r - map (fst \<circ> snd) ?parts ! r)
                  [0..<length (map (fst \<circ> snd) ?parts)] ! i
        \<le> map (\<lambda>r. rights ! r - lefts ! r) [0..<length lefts] ! i"
    using w by (auto simp: l p intro: diff_le_mono2)
  show "m < length (map (\<lambda>r. rights ! r - map (fst \<circ> snd) ?parts ! r)
                  [0..<length (map (fst \<circ> snd) ?parts)])"
    using m by (simp add: l)
  show "map (\<lambda>r. rights ! r - map (fst \<circ> snd) ?parts ! r)
                  [0..<length (map (fst \<circ> snd) ?parts)] ! m
      < map (\<lambda>r. rights ! r - lefts ! r) [0..<length lefts] ! m"
    using m w [of "lefts ! m" "arrs ! m" "rights ! m" True] by (simp add: l p) linarith
qed

text \<open>
  \<^verbatim>\<open>distributed_quickselect_helper\<close> on all workers at once: \<open>arrs\<close>, \<open>lefts\<close> and
  \<open>rights\<close> hold the array and the window of every worker, \<open>targets\<close> is the array of
  targets of the call.  The rounds are synchronous, every worker takes the same branches,
  and the messages of a round carry the readiness flags, the pivot of the master, the
  local \<^verbatim>\<open>partition_right\<close> of every worker and their sum.  \<open>net lefts rights\<close> is 0 when
  the transport delivers the messages of the round with these windows, and else the status
  with which the round fails.  The result lists, for every target of the call in order, the
  sample and the position \<^verbatim>\<open>sample_idxs[i]\<close> on every worker.
\<close>

function distributed_quickselect_helper ::
  "(nat list \<Rightarrow> nat list \<Rightarrow> int) \<Rightarrow> elem list list \<Rightarrow> nat list \<Rightarrow> nat list \<Rightarrow> nat list
   \<Rightarrow> int + (elem list list \<times> (sample \<times> nat list) list)" where
  "distributed_quickselect_helper net arrs targets lefts rights =
     (if targets = [] then Inr (arrs, [])
      else if net lefts rights \<noteq> 0 then Inl (net lefts rights)
      else case find (\<lambda>r. lefts ! r < rights ! r) [0..<length lefts] of
        None \<Rightarrow> Inl (- 1)
      | Some master_rank \<Rightarrow>
          (let pivot = sample_of (arrs ! master_rank ! (lefts ! master_rank));
               parts = partition_all arrs pivot lefts rights master_rank;
               partition_lefts = map (fst \<circ> snd) parts;
               partition_rights = map (snd \<circ> snd) parts;
               cur_pivot = sum_list partition_rights;
               geq_target_idx = bsearch_ge cur_pivot targets;
               found_target = (geq_target_idx < length targets
                                \<and> targets ! geq_target_idx = cur_pivot);
               gt_target_idx = geq_target_idx + of_bool found_target
           in case distributed_quickselect_helper net (map fst parts)
                     (take geq_target_idx targets) lefts partition_rights of
                Inl ret \<Rightarrow> Inl ret
              | Inr (arrs', lower) \<Rightarrow>
                  (case distributed_quickselect_helper net arrs'
                          (drop gt_target_idx targets) partition_lefts rights of
                     Inl ret \<Rightarrow> Inl ret
                   | Inr (arrs'', upper) \<Rightarrow>
                       Inr (arrs'',
                            lower @ (if found_target then [(pivot, partition_rights)] else [])
                              @ upper))))"
  by pat_completeness auto
termination
proof (relation "measure (\<lambda>(net, arrs, targets, lefts, rights). slices_size lefts rights)",
    goal_cases)
  case 1
  show ?case by simp
next
  case (2 net arrs targets lefts rights m)
  then show ?case using slices_size_left [of lefts rights m arrs] by simp
next
  case (3 net arrs targets lefts rights m)
  then show ?case using slices_size_right [of lefts rights m arrs] by simp
qed

declare distributed_quickselect_helper.simps [simp del]

definition distributed_quickselect ::
  "(nat list \<Rightarrow> nat list \<Rightarrow> int) \<Rightarrow> elem list list \<Rightarrow> nat list \<Rightarrow> nat list
   \<Rightarrow> int + (elem list list \<times> (sample \<times> nat list) list)" where
  "distributed_quickselect net arrs local_lengths targets =
     distributed_quickselect_helper net arrs targets (replicate (length arrs) 0) local_lengths"

subsection \<open>Notions for the correctness of the quickselect\<close>

text \<open>
  The pair (key, ORP id) of a record and of a sample: both comparators order the
  records by these pairs, lexicographically.
\<close>

definition rank :: "elem \<Rightarrow> u64 \<times> u64" where
  "rank e = (key e, orp_id e)"

definition srank :: "sample \<Rightarrow> u64 \<times> u64" where
  "srank s = (s_key s, s_orp_id s)"

text \<open>
  An array after swaps inside the window \<open>[l, r)\<close>: the same length and records as
  before, and the same cells outside the window.
\<close>

definition same_outside :: "'a list \<Rightarrow> 'a list \<Rightarrow> nat \<Rightarrow> nat \<Rightarrow> bool" where
  "same_outside a' a l r \<longleftrightarrow>
     length a' = length a \<and> mset a' = mset a
     \<and> (\<forall>p<length a. p < l \<or> r \<le> p \<longrightarrow> a' ! p = a ! p)"

text \<open>
  What the partition of the window \<open>[l, r)\<close> of one worker establishes: the cells below
  \<open>pr\<close> hold records at most the pivot, the cells from \<open>pl\<close> on records at least the
  pivot, and the cells between (the pivot's own, on the master) records equal to it.
\<close>

definition parted :: "elem list \<Rightarrow> sample \<Rightarrow> nat \<Rightarrow> nat \<Rightarrow> nat \<Rightarrow> nat \<Rightarrow> bool" where
  "parted a pivot l pr pl r \<longleftrightarrow>
     l \<le> pr \<and> pr \<le> pl \<and> pl \<le> r
     \<and> (\<forall>p. l \<le> p \<and> p < pr \<longrightarrow> rank (a ! p) \<le> srank pivot)
     \<and> (\<forall>p. pr \<le> p \<and> p < pl \<longrightarrow> rank (a ! p) = srank pivot)
     \<and> (\<forall>p. pl \<le> p \<and> p < r \<longrightarrow> srank pivot \<le> rank (a ! p))"

text \<open>
  The invariant of the partition loop.
\<close>

definition loop_inv ::
  "elem list \<Rightarrow> sample \<Rightarrow> nat \<Rightarrow> nat \<Rightarrow> elem list \<Rightarrow> nat \<Rightarrow> nat \<Rightarrow> partition_state \<Rightarrow> bool" where
  "loop_inv a0 pivot l r a pl pr s \<longleftrightarrow>
     same_outside a a0 l r \<and> l \<le> pl \<and> pl \<le> pr \<and> pr \<le> r
     \<and> (\<forall>p. l \<le> p \<and> p < pl \<longrightarrow> rank (a ! p) \<le> srank pivot)
     \<and> (\<forall>p. pr \<le> p \<and> p < r \<longrightarrow> srank pivot \<le> rank (a ! p))
     \<and> (s = PARTITION_SCAN_RIGHT \<longrightarrow> srank pivot < rank (a ! pl))"

text \<open>
  The invariant of the recursion: every window lies within its array, every record below
  a window is at most, and every record above a window is at least, every record inside
  any window of any worker.
\<close>

definition qinv :: "elem list list \<Rightarrow> nat list \<Rightarrow> nat list \<Rightarrow> bool" where
  "qinv arrs ls rs \<longleftrightarrow>
     length arrs = length ls \<and> length rs = length ls
     \<and> (\<forall>r<length ls. ls ! r \<le> rs ! r \<and> rs ! r \<le> length (arrs ! r))
     \<and> (\<forall>r<length ls. \<forall>r'<length ls. \<forall>p q. p < ls ! r \<and> ls ! r' \<le> q \<and> q < rs ! r'
           \<longrightarrow> rank (arrs ! r ! p) \<le> rank (arrs ! r' ! q))
     \<and> (\<forall>r<length ls. \<forall>r'<length ls. \<forall>p q.
           rs ! r \<le> p \<and> p < length (arrs ! r) \<and> ls ! r' \<le> q \<and> q < rs ! r'
           \<longrightarrow> rank (arrs ! r' ! q) \<le> rank (arrs ! r ! p))"

text \<open>
  The arrays of the \<open>W\<close> workers changed inside their windows only.
\<close>

definition wperm :: "nat \<Rightarrow> elem list list \<Rightarrow> elem list list \<Rightarrow> nat list \<Rightarrow> nat list \<Rightarrow> bool" where
  "wperm W arrs' arrs ls rs \<longleftrightarrow>
     length arrs' = W \<and> (\<forall>r<W. same_outside (arrs' ! r) (arrs ! r) (ls ! r) (rs ! r))"

text \<open>
  A sample with its positions \<open>idxs\<close> on the workers splits every array: the positions add
  up to \<open>t\<close>, the records before the position of a worker are at most the sample and the
  records from it on are at least the sample.
\<close>

definition good :: "nat \<Rightarrow> elem list list \<Rightarrow> sample \<Rightarrow> nat list \<Rightarrow> nat \<Rightarrow> bool" where
  "good W arrs s idxs t \<longleftrightarrow>
     length idxs = W \<and> sum_list idxs = t
     \<and> (\<forall>r<W. idxs ! r \<le> length (arrs ! r)
           \<and> (\<forall>p<idxs ! r. rank (arrs ! r ! p) \<le> srank s)
           \<and> (\<forall>p. idxs ! r \<le> p \<and> p < length (arrs ! r) \<longrightarrow> srank s \<le> rank (arrs ! r ! p)))"

text \<open>
  All workers have partitioned their windows around the pivot.
\<close>

definition parted_all ::
  "elem list list \<Rightarrow> elem list list \<Rightarrow> sample \<Rightarrow> nat list \<Rightarrow> nat list \<Rightarrow> nat list \<Rightarrow> nat list \<Rightarrow> bool" where
  "parted_all arrs1 arrs pivot ls prs pls rs \<longleftrightarrow>
     length arrs1 = length ls \<and> length prs = length ls \<and> length pls = length ls
     \<and> (\<forall>r<length ls. same_outside (arrs1 ! r) (arrs ! r) (ls ! r) (rs ! r)
           \<and> parted (arrs1 ! r) pivot (ls ! r) (prs ! r) (pls ! r) (rs ! r))"

text \<open>
  The sample is the record at its position on worker \<open>r\<close>.
\<close>

definition spot :: "elem list list \<Rightarrow> sample \<Rightarrow> nat list \<Rightarrow> nat \<Rightarrow> bool" where
  "spot arrs s idxs r \<longleftrightarrow> idxs ! r < length (arrs ! r) \<and> rank (arrs ! r ! (idxs ! r)) = srank s"

text \<open>
  What a call with the windows \<open>ls\<close>, \<open>rs\<close> establishes for an entry of its result.
\<close>

definition res_ok ::
  "nat \<Rightarrow> elem list list \<Rightarrow> nat list \<Rightarrow> nat list \<Rightarrow> sample \<times> nat list \<Rightarrow> bool" where
  "res_ok W arrs ls rs x \<longleftrightarrow>
     good W arrs (fst x) (snd x) (sum_list (snd x))
     \<and> (\<forall>r<W. ls ! r \<le> snd x ! r \<and> snd x ! r \<le> rs ! r)
     \<and> (\<exists>r<W. snd x ! r < rs ! r \<and> spot arrs (fst x) (snd x) r)"

text \<open>
  The number of records of all workers that compare less than, and at most, a sample.
\<close>

definition count_lt :: "elem list list \<Rightarrow> sample \<Rightarrow> nat" where
  "count_lt arrs s = sum_list (map (\<lambda>a. length (filter (\<lambda>e. elem_sample_comparator e s < 0) a)) arrs)"

definition count_le :: "elem list list \<Rightarrow> sample \<Rightarrow> nat" where
  "count_le arrs s = sum_list (map (\<lambda>a. length (filter (\<lambda>e. elem_sample_comparator e s \<le> 0) a)) arrs)"

text \<open>
  No two records of the workers have the same key and the same ORP id.
\<close>

definition distinct_ranks :: "elem list list \<Rightarrow> bool" where
  "distinct_ranks arrs = distinct (concat (map (map rank) arrs))"


section \<open>Concrete inputs\<close>

text \<open>
  Small memories for running the functions: records with the given keys, ORP id 0 and an
  empty payload; scratch arrays of the same length; an entropy source holding the given
  words and failing with status 5 once they are used up.
\<close>

definition example_elems :: "nat list \<Rightarrow> elem list" where
  "example_elems ks = map (\<lambda>k. \<lparr>key = of_nat k, orp_id = 0, payload = []\<rparr>) ks"

definition example_state :: "nat list \<Rightarrow> bool list \<Rightarrow> size_t list \<Rightarrow> u32 list \<Rightarrow> sstate" where
  "example_state ks ms ps cs =
     \<lparr>arr = example_elems ks, marked = ms, marked_prefix_sums = ps,
      rng = \<lparr>pool = cs, fail = 5\<rparr>, trace = []\<rparr>"

section \<open>Theorems\<close>

lemma unat_of_nat64: "n < 2 ^ 64 \<Longrightarrow> unat (of_nat n :: size_t) = n"
  by (simp add: unat_of_nat)

lemma comp3_sgn: "comp3 a b = sgn (int (unat a) - int (unat b))"
  by (auto simp: comp3_def word_less_def sgn_if)

lemma comp3_cases: "comp3 a b = (if a < b then - 1 else if a = b then 0 else 1)"
  by (auto simp: comp3_def)

subsection \<open>Frame properties of the swaps and of \<open>compact\<close>\<close>

lemma o_memswap_sel [simp]:
  "marked (o_memswap st a b c) = marked st"
  "marked_prefix_sums (o_memswap st a b c) = marked_prefix_sums st"
  "rng (o_memswap st a b c) = rng st"
  "trace (o_memswap st a b c) = trace st @ [(a, b)]"
  "length (arr (o_memswap st a b c)) = length (arr st)"
  by (simp_all add: o_memswap_def)

lemma o_memswap_mset:
  "a < length (arr st) \<Longrightarrow> b < length (arr st) \<Longrightarrow> mset (arr (o_memswap st a b c)) = mset (arr st)"
  by (simp add: o_memswap_def mset_swap)

lemma fold_memswap_sel:
  "marked (fold (\<lambda>i st. o_memswap st (f i) (g i) (c i)) is st) = marked st"
  "marked_prefix_sums (fold (\<lambda>i st. o_memswap st (f i) (g i) (c i)) is st) = marked_prefix_sums st"
  "rng (fold (\<lambda>i st. o_memswap st (f i) (g i) (c i)) is st) = rng st"
  "trace (fold (\<lambda>i st. o_memswap st (f i) (g i) (c i)) is st) = trace st @ map (\<lambda>i. (f i, g i)) is"
  "length (arr (fold (\<lambda>i st. o_memswap st (f i) (g i) (c i)) is st)) = length (arr st)"
  by (induction "is" arbitrary: st; simp)+

lemma fold_memswap_mset:
  "\<forall>i\<in>set is. f i < length (arr st) \<and> g i < length (arr st) \<Longrightarrow>
   mset (arr (fold (\<lambda>i st. o_memswap st (f i) (g i) (c i)) is st)) = mset (arr st)"
  by (induction "is" arbitrary: st) (simp_all add: o_memswap_mset)

lemma swap_range_sel [simp]:
  "marked (swap_range st base n off lmc) = marked st"
  "marked_prefix_sums (swap_range st base n off lmc) = marked_prefix_sums st"
  "rng (swap_range st base n off lmc) = rng st"
  "trace (swap_range st base n off lmc) = trace st @ swap_pairs base n"
  "length (arr (swap_range st base n off lmc)) = length (arr st)"
  by (simp_all add: swap_range_def swap_local_range_def fold_memswap_sel swap_pairs_def)

lemma swap_range_mset:
  "base + n \<le> length (arr st) \<Longrightarrow> mset (arr (swap_range st base n off lmc)) = mset (arr st)"
  unfolding swap_range_def swap_local_range_def
  by (rule fold_memswap_mset) auto

lemma compact_sel:
  "marked (compact st base n off) = marked st \<and>
   marked_prefix_sums (compact st base n off) = marked_prefix_sums st \<and>
   rng (compact st base n off) = rng st \<and>
   trace (compact st base n off) = trace st @ compact_pairs base n \<and>
   length (arr (compact st base n off)) = length (arr st)"
proof (induction st base n off rule: compact.induct)
  case (1 st base n off)
  show ?case
  proof (cases "n < 2 \<or> n = 2")
    case True
    then show ?thesis
      by (auto simp: compact.simps [of st base n off] compact_pairs.simps [of base n])
  next
    case False
    then have n: "\<not> n < 2" "n \<noteq> 2" by auto
    note ih1 = "1.IH"(1) [OF n refl refl refl]
    note ih2 = "1.IH"(2) [OF n refl refl refl refl]
    show ?thesis
      using n ih1 ih2
      by (simp add: compact.simps [of st base n off] compact_pairs.simps [of base n] Let_def)
  qed
qed

lemma compact_mset:
  "base + n \<le> length (arr st) \<Longrightarrow> mset (arr (compact st base n off)) = mset (arr st)"
proof (induction st base n off rule: compact.induct)
  case (1 st base n off)
  show ?case
  proof (cases "n < 2 \<or> n = 2")
    case True
    then show ?thesis using "1.prems"
      by (auto simp: compact.simps [of st base n off] o_memswap_mset)
  next
    case False
    then have n: "\<not> n < 2" "n \<noteq> 2" by auto
    note ih1 = "1.IH"(1) [OF n refl refl refl]
    note ih2 = "1.IH"(2) [OF n refl refl refl refl]
    have b1: "base + n div 2 \<le> length (arr st)" using "1.prems" by simp
    have b2: "base + n div 2 + n div 2 \<le> length (arr st)" using "1.prems" by simp
    show ?thesis
      using n ih1 ih2 b1 b2 "1.prems"
      by (simp add: compact.simps [of st base n off] Let_def swap_range_mset compact_sel)
  qed
qed

subsection \<open>Frame properties of the marking loop and of \<open>shuffle\<close>\<close>

lemma fold_mark_elem_frame:
  "fold (mark_elem k) zs (st, tot, msf) = (st', tot', msf') \<Longrightarrow>
   arr st' = arr st \<and> trace st' = trace st \<and> rng st' = rng st"
proof (induction zs arbitrary: st tot msf)
  case Nil
  then show ?case by simp
next
  case (Cons z zs)
  obtain idx coin where z: "z = (idx, coin)" by (cases z)
  obtain st1 tot1 msf1 where s: "mark_elem k z (st, tot, msf) = (st1, tot1, msf1)"
    by (cases "mark_elem k z (st, tot, msf)")
  from s have "arr st1 = arr st \<and> trace st1 = trace st \<and> rng st1 = rng st"
    by (auto simp: mark_elem_def z Let_def)
  moreover from Cons.prems s have "fold (mark_elem k) zs (st1, tot1, msf1) = (st', tot', msf')"
    by simp
  ultimately show ?case using Cons.IH by metis
qed

lemma mark_loop_frame:
  "mark_loop st base n i tot msf = Inr st' \<Longrightarrow> arr st' = arr st \<and> trace st' = trace st"
proof (induction st base n i tot msf rule: mark_loop.induct)
  case (1 st base n i tot msf)
  show ?case
  proof (cases "i < n")
    case False
    with "1.prems" show ?thesis by (simp add: mark_loop.simps [of st base n i])
  next
    case True
    let ?k = "min (n - i) MARK_COINS"
    from "1.prems" True obtain coins r where
      rr: "rand_read ?k (rng st) = Inr (coins, r)"
      by (auto simp: mark_loop.simps [of st base n i] Let_def split: sum.splits)
    obtain st1 tot1 msf1 where
      f: "fold (mark_elem (of_nat (n div 2))) (zip [base + i..<base + i + ?k] coins)
            (st\<lparr>rng := r\<rparr>, tot, msf) = (st1, tot1, msf1)"
      by (metis prod_cases3)
    from "1.prems" True rr f have rec: "mark_loop st1 base n (i + MARK_COINS) tot1 msf1 = Inr st'"
      by (simp add: mark_loop.simps [of st base n i] Let_def)
    from "1.IH" [OF True refl rr refl f [symmetric] refl rec]
    have "arr st' = arr st1 \<and> trace st' = trace st1" .
    moreover from fold_mark_elem_frame [OF f] have "arr st1 = arr st \<and> trace st1 = trace st"
      by simp
    ultimately show ?thesis by simp
  qed
qed

lemma shuffle_frame:
  "shuffle st base n = Inr st' \<Longrightarrow> base + n \<le> length (arr st) \<Longrightarrow>
   mset (arr st') = mset (arr st) \<and> length (arr st') = length (arr st)"
proof (induction st base n arbitrary: st' rule: shuffle.induct)
  case (1 st base n)
  show ?case
  proof (cases "n < 2 \<or> n = 2")
    case True
    then show ?thesis using "1.prems"
      by (auto simp: shuffle.simps [of st base n] rand_bit_def o_memswap_def mset_swap
          split: sum.splits list.splits if_splits)
  next
    case False
    then have n: "\<not> n < 2" "n \<noteq> 2" by auto
    from "1.prems"(1) n obtain st1 st2 where
      m: "mark_loop st base n 0 (of_nat n) 0 = Inr st1" and
      s1: "shuffle (compact st1 base n 0) base (n div 2) = Inr st2" and
      s2: "shuffle st2 (base + n div 2) (n div 2) = Inr st'"
      by (auto simp: shuffle.simps [of st base n] split: sum.splits)
    have a1: "arr st1 = arr st" using mark_loop_frame [OF m] by simp
    have len_c: "length (arr (compact st1 base n 0)) = length (arr st)"
      using compact_sel [of st1 base n 0] a1 by simp
    have mset_c: "mset (arr (compact st1 base n 0)) = mset (arr st)"
      using compact_mset [of base n st1 0] "1.prems"(2) a1 by simp
    have b1: "base + n div 2 \<le> length (arr (compact st1 base n 0))"
      using len_c "1.prems"(2) by simp
    from "1.IH"(1) [OF n m s1 b1]
    have r1: "mset (arr st2) = mset (arr st)" "length (arr st2) = length (arr st)"
      using mset_c len_c by simp_all
    have b2: "base + n div 2 + n div 2 \<le> length (arr st2)"
      using r1 "1.prems"(2) by simp
    from "1.IH"(2) [OF n m s1 s2 b2] r1 show ?thesis by simp
  qed
qed

lemma shuffle_trace:
  "shuffle st base n = Inr st' \<Longrightarrow> trace st' = trace st @ shuffle_pairs base n"
proof (induction st base n arbitrary: st' rule: shuffle.induct)
  case (1 st base n)
  show ?case
  proof (cases "n < 2 \<or> n = 2")
    case True
    then show ?thesis using "1.prems"
      by (auto simp: shuffle.simps [of st base n] shuffle_pairs.simps [of base n]
          split: sum.splits)
  next
    case False
    then have n: "\<not> n < 2" "n \<noteq> 2" by auto
    from "1.prems"(1) n obtain st1 st2 where
      m: "mark_loop st base n 0 (of_nat n) 0 = Inr st1" and
      s1: "shuffle (compact st1 base n 0) base (n div 2) = Inr st2" and
      s2: "shuffle st2 (base + n div 2) (n div 2) = Inr st'"
      by (auto simp: shuffle.simps [of st base n] split: sum.splits)
    have t1: "trace st1 = trace st" using mark_loop_frame [OF m] by simp
    have tc: "trace (compact st1 base n 0) = trace st @ compact_pairs base n"
      using compact_sel [of st1 base n 0] t1 by simp
    from "1.IH"(1) [OF n m s1] "1.IH"(2) [OF n m s1 s2] tc n
    show ?thesis by (simp add: shuffle_pairs.simps [of base n])
  qed
qed

subsection \<open>The claims about the shuffle\<close>

text \<open>
  C10: \<open>compact\<close> and \<open>shuffle\<close> change the record array only through the conditional
  swaps, so whatever the scratch arrays hold, whatever the offset and whatever the entropy
  source delivers, the array after \<open>compact\<close>, and after a \<open>shuffle\<close> that returns 0, is a
  permutation of the array before.  The only premise is that the \<open>n\<close> cells at \<open>base\<close> lie
  inside the array.
\<close>

theorem compact_shuffle_permutation:
  assumes "base + n \<le> length (arr st)"
  shows "mset (arr (compact st base n offset)) = mset (arr st)
       \<and> (\<forall>st'. shuffle st base n = Inr st' \<longrightarrow> mset (arr st') = mset (arr st))"
  using assms compact_mset [of base n st offset] shuffle_frame [of st base n] by blast

theorem compact_shuffle_permutation_witness:
  "0 + 4 \<le> length (arr (example_state [1, 2, 3, 4] [False, True, True, False] [7, 7, 7, 7]
                          [0, 4294967295, 7, 9, 1, 0]))
   \<and> shuffle (example_state [1, 2, 3, 4] [False, True, True, False] [7, 7, 7, 7]
                [0, 4294967295, 7, 9, 1, 0]) 0 4
     = Inr \<lparr>arr = example_elems [3, 2, 4, 1], marked = [False, True, False, False],
            marked_prefix_sums = [0, 1, 1, 1], rng = \<lparr>pool = [], fail = 5\<rparr>,
            trace = [(0, 1), (2, 3), (0, 2), (1, 3), (0, 1), (2, 3)]\<rparr>
   \<and> mset (example_elems [3, 2, 4, 1]) = mset (example_elems [1, 2, 3, 4])
   \<and> mset (arr (compact (example_state [1, 2, 3, 4] [False, True, True, False] [7, 7, 7, 7]
                           [0, 4294967295, 7, 9, 1, 0]) 0 4 1))
     = mset (example_elems [1, 2, 3, 4])"
proof -
  let ?st = "example_state [1, 2, 3, 4] [False, True, True, False] [7, 7, 7, 7]
               [0, 4294967295, 7, 9, 1, 0]"
  let ?st' = "\<lparr>arr = example_elems [3, 2, 4, 1], marked = [False, True, False, False],
            marked_prefix_sums = [0, 1, 1, 1], rng = \<lparr>pool = [], fail = 5\<rparr>,
            trace = [(0, 1), (2, 3), (0, 2), (1, 3), (0, 1), (2, 3)]\<rparr>"
  have len: "0 + 4 \<le> length (arr ?st)"
    by (simp add: example_state_def example_elems_def)
  have run: "shuffle ?st 0 4 = Inr ?st'"
    by code_simp
  have a: "arr ?st = example_elems [1, 2, 3, 4]"
    by (simp add: example_state_def)
  from compact_shuffle_permutation [OF len, of 1] run a len show ?thesis
    by (metis sstate.select_convs(1))
qed

text \<open>
  C5: two runs of \<open>shuffle\<close> over \<open>n\<close> cells that both return 0 hand the same sequence of
  index pairs to \<^verbatim>\<open>o_memswap\<close>, whatever the records, the scratch arrays and the coins of
  the two runs are; the sequence is \<open>shuffle_pairs base n\<close>, a function of the position and
  the length alone.
\<close>

theorem shuffle_trace_oblivious:
  assumes "shuffle st1 base n = Inr st1'" and "shuffle st2 base n = Inr st2'"
  shows "issued st1 st1' = issued st2 st2' \<and> issued st1 st1' = shuffle_pairs base n"
  using shuffle_trace [OF assms(1)] shuffle_trace [OF assms(2)] by (simp add: issued_def)

theorem shuffle_trace_oblivious_witness:
  "shuffle (example_state [1, 2, 3, 4] [False, False, False, False] [0, 0, 0, 0]
              [0, 4294967295, 7, 9, 1, 0]) 0 4
     = Inr \<lparr>arr = example_elems [3, 2, 4, 1], marked = [False, True, False, False],
            marked_prefix_sums = [0, 1, 1, 1], rng = \<lparr>pool = [], fail = 5\<rparr>,
            trace = [(0, 1), (2, 3), (0, 2), (1, 3), (0, 1), (2, 3)]\<rparr>
   \<and> shuffle (example_state [8, 7, 6, 5] [True, False, True, False] [9, 9, 9, 9]
              [4294967295, 4294967295, 0, 0, 0, 1]) 0 4
     = Inr \<lparr>arr = example_elems [8, 7, 5, 6], marked = [True, True, True, False],
            marked_prefix_sums = [1, 2, 3, 3], rng = \<lparr>pool = [], fail = 5\<rparr>,
            trace = [(0, 1), (2, 3), (0, 2), (1, 3), (0, 1), (2, 3)]\<rparr>
   \<and> shuffle_pairs 0 4 = [(0, 1), (2, 3), (0, 2), (1, 3), (0, 1), (2, 3)]"
proof -
  let ?a = "example_state [1, 2, 3, 4] [False, False, False, False] [0, 0, 0, 0]
              [0, 4294967295, 7, 9, 1, 0]"
  let ?a' = "\<lparr>arr = example_elems [3, 2, 4, 1], marked = [False, True, False, False],
            marked_prefix_sums = [0, 1, 1, 1], rng = \<lparr>pool = [], fail = 5\<rparr>,
            trace = [(0, 1), (2, 3), (0, 2), (1, 3), (0, 1), (2, 3)]\<rparr>"
  let ?b = "example_state [8, 7, 6, 5] [True, False, True, False] [9, 9, 9, 9]
              [4294967295, 4294967295, 0, 0, 0, 1]"
  let ?b' = "\<lparr>arr = example_elems [8, 7, 5, 6], marked = [True, True, True, False],
            marked_prefix_sums = [1, 2, 3, 3], rng = \<lparr>pool = [], fail = 5\<rparr>,
            trace = [(0, 1), (2, 3), (0, 2), (1, 3), (0, 1), (2, 3)]\<rparr>"
  have ra: "shuffle ?a 0 4 = Inr ?a'" by code_simp
  have rb: "shuffle ?b 0 4 = Inr ?b'" by code_simp
  have i: "issued ?a ?a' = [(0, 1), (2, 3), (0, 2), (1, 3), (0, 1), (2, 3)]"
    by (simp add: issued_def example_state_def)
  have c: "issued ?a ?a' = shuffle_pairs 0 4"
    using shuffle_trace_oblivious [OF ra rb] by (rule conjunct2)
  have sp: "shuffle_pairs 0 4 = [(0, 1), (2, 3), (0, 2), (1, 3), (0, 1), (2, 3)]"
    using c [symmetric] i by (rule trans)
  from ra rb sp show ?thesis by (intro conjI)
qed

subsection \<open>Correctness of \<open>compact\<close>\<close>

lemma mod_lt2: "a < 2 * h \<Longrightarrow> (a :: nat) mod h = (if a < h then a else a - h)"
  by (simp add: mod_if)

lemma mod_wrap: "(a :: nat) < h \<Longrightarrow> (a + h) mod h = a"
  by simp

lemma left_core:
  fixes h zl m1 j :: nat
  assumes "zl < h" "m1 \<le> h" "j < m1"
  shows "((zl + j) mod h \<ge> (zl + m1) mod h) = ((zl + m1 \<ge> h) \<noteq> (zl + j \<ge> h))"
proof -
  have a: "zl + j < 2 * h" "zl + m1 < 2 * h" using assms by linarith+
  show ?thesis
  proof (cases "zl + m1 < h")
    case True
    then have "zl + j < h" using assms by linarith
    with True a assms show ?thesis by (simp add: mod_lt2)
  next
    case False
    show ?thesis
    proof (cases "zl + j < h")
      case True
      have "zl + m1 - h \<le> zl + j" using assms by linarith
      with True False a show ?thesis by (simp add: mod_lt2)
    next
      case f2: False
      have "\<not> zl + m1 - h \<le> zl + j - h" using assms f2 False by linarith
      with f2 False a show ?thesis by (simp add: mod_lt2)
    qed
  qed
qed

lemma right_core:
  fixes h zr j :: nat
  assumes "zr < h" "j < h"
  shows "((zr + j) mod h \<ge> zr) = (zr + j < h)"
proof -
  have a: "zr + j < 2 * h" using assms by linarith
  show ?thesis
  proof (cases "zr + j < h")
    case True
    with a show ?thesis by (simp add: mod_lt2)
  next
    case False
    have "\<not> zr \<le> zr + j - h" using assms False by linarith
    with False a show ?thesis by (simp add: mod_lt2)
  qed
qed

lemma half_pos:
  fixes h q :: nat
  assumes "q < 2 * h"
  shows "(q + (if b then h else 0)) mod (2 * h) = (if (q \<ge> h) \<noteq> b then h + q mod h else q mod h)"
proof (cases b)
  case False
  with assms show ?thesis by (simp add: mod_lt2)
next
  case True
  show ?thesis
  proof (cases "q < h")
    case t: True
    then have "q + h < 2 * h" by linarith
    with True t show ?thesis by simp
  next
    case False
    then have e: "q + h = (q - h) + 2 * h" and l: "q - h < 2 * h" using assms by linarith+
    have "(q + h) mod (2 * h) = q - h"
      unfolding e using l by simp
    with True False assms show ?thesis by (simp add: mod_lt2)
  qed
qed

lemma fold_swap_nth:
  assumes "base + h + h \<le> length (arr st)"
  shows "k \<le> h \<Longrightarrow> j < length (arr st) \<Longrightarrow>
         arr (fold (\<lambda>i st. o_memswap st (base + i) (base + i + h) (c i)) [0..<k] st) ! j
         = swapped (arr st) base h k c j"
proof (induction k arbitrary: j)
  case 0
  show ?case by (auto simp: swapped_def)
next
  case (Suc k)
  let ?f = "\<lambda>i st. o_memswap st (base + i) (base + i + h) (c i)"
  let ?st = "fold ?f [0..<k] st"
  have k: "k < h" using Suc.prems by simp
  have len: "length (arr ?st) = length (arr st)" by (simp add: fold_memswap_sel)
  have ih: "arr ?st ! i = swapped (arr st) base h k c i" if "i < length (arr st)" for i
    using Suc.IH [of i] k that by simp
  have a: "base + k < length (arr st)" "base + k + h < length (arr st)"
    using assms k by linarith+
  have lo: "arr ?st ! (base + k) = arr st ! (base + k)"
    using ih [OF a(1)] k by (simp add: swapped_def)
  have hi: "arr ?st ! (base + k + h) = arr st ! (base + k + h)"
    using ih [OF a(2)] k by (simp add: swapped_def)
  have step: "fold ?f [0..<Suc k] st = o_memswap ?st (base + k) (base + k + h) (c k)"
    by simp
  show ?case
  proof (cases "c k")
    case False
    then have "arr (fold ?f [0..<Suc k] st) ! j = arr ?st ! j"
      unfolding step by (simp add: o_memswap_def)
    also have "\<dots> = swapped (arr st) base h k c j" by (rule ih [OF Suc.prems(2)])
    also have "\<dots> = swapped (arr st) base h (Suc k) c j"
      using False by (auto simp: swapped_def less_Suc_eq)
    finally show ?thesis .
  next
    case True
    have upd: "arr (fold ?f [0..<Suc k] st)
        = (arr ?st)[base + k := arr ?st ! (base + k + h), base + k + h := arr ?st ! (base + k)]"
      unfolding step using True by (simp add: o_memswap_def)
    consider "j = base + k" | "j = base + k + h" | "j \<noteq> base + k" "j \<noteq> base + k + h"
      by blast
    then show ?thesis
    proof cases
      case 1
      have "arr (fold ?f [0..<Suc k] st) ! j = arr ?st ! (base + k + h)"
        unfolding upd using 1 a len k by (simp add: nth_list_update)
      with hi 1 True k show ?thesis by (simp add: swapped_def)
    next
      case 2
      have "arr (fold ?f [0..<Suc k] st) ! j = arr ?st ! (base + k)"
        unfolding upd using 2 a len by (simp add: nth_list_update)
      with lo 2 True k show ?thesis by (simp add: swapped_def)
    next
      case 3
      have "arr (fold ?f [0..<Suc k] st) ! j = arr ?st ! j"
        unfolding upd using 3 by simp
      also have "\<dots> = swapped (arr st) base h k c j" by (rule ih [OF Suc.prems(2)])
      also have "\<dots> = swapped (arr st) base h (Suc k) c j"
        using 3 by (auto simp: swapped_def less_Suc_eq)
      finally show ?thesis .
    qed
  qed
qed

lemma swap_range_nth:
  assumes "base + n \<le> length (arr st)" "j < length (arr st)"
  shows "arr (swap_range st base n off lmc) ! j
         = swapped (arr st) base (n div 2) (n div 2) (swap_cond n off lmc) j"
  unfolding swap_range_def swap_local_range_def
  by (rule fold_swap_nth) (use assms in simp_all)

lemma swap_range_outside:
  assumes "base + n \<le> length (arr st)" "j < base \<or> base + n \<le> j" "j < length (arr st)"
  shows "arr (swap_range st base n off lmc) ! j = arr st ! j"
  using swap_range_nth [OF assms(1,3)] assms(2) by (auto simp: swapped_def)

lemma compact_outside:
  "base + n \<le> length (arr st) \<Longrightarrow> j < base \<or> base + n \<le> j \<Longrightarrow> j < length (arr st) \<Longrightarrow>
   arr (compact st base n off) ! j = arr st ! j"
proof (induction st base n off rule: compact.induct)
  case (1 st base n off)
  show ?case
  proof (cases "n < 2 \<or> n = 2")
    case True
    then show ?thesis using "1.prems"
      by (auto simp: compact.simps [of st base n off] o_memswap_def)
  next
    case False
    then have n: "\<not> n < 2" "n \<noteq> 2" by auto
    note ih1 = "1.IH"(1) [OF n refl refl refl]
    note ih2 = "1.IH"(2) [OF n refl refl refl refl]
    let ?lmc = "marked_prefix_sums st ! (base + (n div 2 - 1)) - marked_prefix_sums st ! base
                 + of_bool (marked st ! base)"
    let ?st1 = "compact st base (n div 2) (off mod of_nat (n div 2))"
    let ?st2 = "compact ?st1 (base + n div 2) (n div 2) ((off + ?lmc) mod of_nat (n div 2))"
    have l1: "length (arr ?st1) = length (arr st)" by (simp add: compact_sel)
    have l2: "length (arr ?st2) = length (arr st)" by (simp add: compact_sel)
    have e: "compact st base n off = swap_range ?st2 base n off ?lmc"
      using n by (simp add: compact.simps [of st base n off] Let_def)
    have "arr (compact st base n off) ! j = arr ?st2 ! j"
      unfolding e using "1.prems" l2 by (intro swap_range_outside) simp_all
    also have "\<dots> = arr ?st1 ! j"
      using "1.prems" l1 by (intro ih2) auto
    also have "\<dots> = arr st ! j"
      using "1.prems" by (intro ih1) auto
    finally show ?thesis .
  qed
qed

lemma pfx_ok_iff:
  "pfx_ok c st base n =
     (\<forall>i<n. marked_prefix_sums st ! (base + i) = c + of_nat (mcount st base (Suc i)))"
  by (auto simp: pfx_ok_def list_all_iff)

lemma upt_split: "[base..<base + (a + b)] = [base..<base + a] @ [base + a..<base + a + b]"
  by (metis add.assoc le_add1 upt_add_eq_append)

lemma mcount_split: "mcount st base (a + b) = mcount st base a + mcount st (base + a) b"
  by (simp add: mcount_def upt_split)

lemma melems_split: "melems st base (a + b) = melems st base a @ melems st (base + a) b"
  by (simp add: melems_def upt_split)

lemma length_melems: "length (melems st base n) = mcount st base n"
  by (simp add: melems_def mcount_def)

lemma mcount_le: "mcount st base n \<le> n"
  unfolding mcount_def by (metis add_diff_cancel_left' length_filter_le length_upt)

lemma mcount_1: "mcount st base (Suc 0) = of_bool (marked st ! base)"
  by (simp add: mcount_def)

lemma melems_1: "melems st base (Suc 0) = (if marked st ! base then [arr st ! base] else [])"
  by (simp add: melems_def)

lemma mcount_cong:
  "marked st' = marked st \<Longrightarrow> mcount st' base n = mcount st base n"
  by (simp add: mcount_def)

lemma melems_cong:
  "marked st' = marked st \<Longrightarrow> (\<And>i. base \<le> i \<Longrightarrow> i < base + n \<Longrightarrow> arr st' ! i = arr st ! i) \<Longrightarrow>
   melems st' base n = melems st base n"
  unfolding melems_def by (auto intro!: map_cong)

lemma swap_cond_nat:
  assumes h: "0 < h" "h \<le> 2 ^ 62" and z: "unat z < 2 * h" and m: "m1 \<le> h" and i: "i < h"
  shows "swap_cond (2 * h) z (of_nat m1) i
         = ((((unat z mod h + m1 \<ge> h) \<noteq> (unat z \<ge> h))) \<noteq> (i \<ge> (unat z + m1) mod h))"
proof -
  let ?H = "of_nat h :: size_t"
  have p: "3 * (2 :: nat) ^ 62 < 2 ^ 64" by simp
  have hb: "h < 2 ^ 64" using h(2) p by linarith
  have uH: "unat ?H = h" using hb by (rule unat_of_nat64)
  have um: "unat (of_nat m1 :: size_t) = m1" using m hb by (intro unat_of_nat64) linarith
  have ui: "unat (of_nat i :: size_t) = i" using i hb by (intro unat_of_nat64) linarith
  have uzl: "unat (z mod ?H) = unat z mod h" by (simp add: unat_mod uH)
  have zl: "unat z mod h < h" using h(1) by simp
  have "unat (z mod ?H) + unat (of_nat m1 :: size_t) < 2 ^ 64"
    unfolding uzl um using zl m h(2) p by linarith
  then have s1: "unat (z mod ?H + of_nat m1) = unat z mod h + m1"
    using unat_add_lem [of "z mod ?H" "of_nat m1"] uzl um by simp
  have "unat z + unat (of_nat m1 :: size_t) < 2 ^ 64"
    unfolding um using z m h(2) p by linarith
  then have s2: "unat (z + of_nat m1) = unat z + m1"
    using unat_add_lem [of z "of_nat m1"] um by simp
  have uzr: "unat ((z + of_nat m1) mod ?H) = (unat z + m1) mod h"
    by (simp add: unat_mod uH s2)
  show ?thesis
    by (simp add: swap_cond_def Let_def word_le_nat_alt uH s1 uzr ui)
qed

lemma pow2_le62: "k < 63 \<Longrightarrow> (2 :: nat) ^ k \<le> 2 ^ 62"
  by (rule power_increasing) simp_all

lemma compact_two:
  assumes len: "base + 2 \<le> length (arr st)" and z: "unat z < 2" and j: "j < mcount st base 2"
  shows "arr (compact st base 2 z) ! (base + (unat z + j) mod 2) = melems st base 2 ! j"
proof -
  have two: "[base..<base + 2] = [base, Suc base]"
    by (simp add: upt_rec)
  have z01: "(z \<noteq> 0) = (unat z = 1)"
    using z unat_gt_0 [of z] by (cases "z = 0") auto
  have zc: "unat z = 0 \<or> unat z = 1" using z by linarith
  have jc: "j = 0 \<or> j = 1" using j mcount_le [of st base 2] by linarith
  have b: "base < length (arr st)" "Suc base < length (arr st)" using len by simp_all
  show ?thesis
    using zc jc j b
    by (auto simp: compact.simps [of st base 2 z] o_memswap_def z01 melems_def mcount_def two
        nth_list_update)
qed

lemma compact_places:
  "base + 2 ^ k \<le> length (arr st) \<Longrightarrow> k < 64 \<Longrightarrow> pfx_ok c st base (2 ^ k) \<Longrightarrow>
   unat z < 2 ^ k \<Longrightarrow> j < mcount st base (2 ^ k) \<Longrightarrow>
   arr (compact st base (2 ^ k) z) ! (base + (unat z + j) mod 2 ^ k) = melems st base (2 ^ k) ! j"
proof (induction k arbitrary: st base c z j)
  case 0
  then have "unat z = 0" "j = 0" "marked st ! base"
    using mcount_le [of st base 1] by (cases "marked st ! base"; simp add: mcount_1)+
  then show ?case
    by (simp add: compact.simps [of st base "Suc 0" z] melems_1)
next
  case (Suc k)
  show ?case
  proof (cases "k = 0")
    case True
    with Suc.prems compact_two [of base st z j] show ?thesis by simp
  next
    case False
    define h :: nat where "h = 2 ^ k"
    have hk: "2 ^ Suc k = 2 * h" by (simp add: h_def)
    have h2: "2 \<le> h" using False unfolding h_def
      by (metis One_nat_def Suc_leI neq0_conv one_le_numeral power_increasing power_one_right)
    have h0: "0 < h" using h2 by simp
    have k63: "k < 63" using Suc.prems(2) by simp
    have h62: "h \<le> 2 ^ 62" unfolding h_def using k63 by (rule pow2_le62)
    have hb: "h < 2 ^ 64"
      using h62 by (rule le_less_trans) simp
    have n: "\<not> 2 * h < 2" "2 * h \<noteq> 2" "2 * h div 2 = h" using h2 by simp_all
    have len: "base + 2 * h \<le> length (arr st)" using Suc.prems(1) hk by simp
    have pfx: "pfx_ok c st base (h + h)" using Suc.prems(3) hk by (simp add: mult_2)
    have z: "unat z < 2 * h" using Suc.prems(4) hk by simp
    have j: "j < mcount st base (h + h)" using Suc.prems(5) hk by (simp add: mult_2)
    define m1 where "m1 = mcount st base h"
    define m2 where "m2 = mcount st (base + h) h"
    have m1h: "m1 \<le> h" and m2h: "m2 \<le> h" unfolding m1_def m2_def by (rule mcount_le)+
    have jm: "j < m1 + m2" using j by (simp add: mcount_split m1_def m2_def)
    let ?H = "of_nat h :: size_t"
    have uH: "unat ?H = h" using hb by (rule unat_of_nat64)
    define zl where "zl = unat z mod h"
    define zr where "zr = (unat z + m1) mod h"
    have zlh: "zl < h" and zrh: "zr < h" unfolding zl_def zr_def using h0 by simp_all
    \<comment> \<open>the number of marks in the left half, as the code reads it off the prefix sums\<close>
    have p_mid: "marked_prefix_sums st ! (base + (h - 1)) = c + of_nat m1"
      using pfx h0 unfolding pfx_ok_iff m1_def
      by (metis Suc_pred' add_strict_increasing le_add1 diff_less less_numeral_extra(1)
          trans_less_add1)
    have p_0: "marked_prefix_sums st ! base = c + of_bool (marked st ! base)"
      using pfx h0 unfolding pfx_ok_iff by (metis add.right_neutral mcount_1 of_nat_of_bool
          trans_less_add1)
    have lmc: "marked_prefix_sums st ! (base + (h - 1)) - marked_prefix_sums st ! base
                 + of_bool (marked st ! base) = (of_nat m1 :: size_t)"
      unfolding p_mid p_0 by simp
    define st1 where "st1 = compact st base h (z mod ?H)"
    define st2 where "st2 = compact st1 (base + h) h ((z + of_nat m1) mod ?H)"
    have e: "compact st base (2 * h) z = swap_range st2 base (2 * h) z (of_nat m1)"
      using n lmc by (simp add: compact.simps [of st base "2 * h" z] Let_def st1_def st2_def)
    have s1: "marked st1 = marked st" "marked_prefix_sums st1 = marked_prefix_sums st"
      "length (arr st1) = length (arr st)"
      unfolding st1_def by (simp_all add: compact_sel)
    have s2: "length (arr st2) = length (arr st)"
      unfolding st2_def by (simp add: compact_sel s1)
    \<comment> \<open>the left half after its compaction\<close>
    have uzl: "unat (z mod ?H) = zl" by (simp add: unat_mod uH zl_def)
    have ih1: "arr st1 ! (base + (zl + i) mod h) = melems st base h ! i" if "i < m1" for i
    proof -
      have "pfx_ok c st base h" using pfx unfolding pfx_ok_iff by simp
      from Suc.IH [of base st c "z mod ?H" i, folded h_def, OF _ _ this] that len k63 zlh
      show ?thesis by (simp add: uzl st1_def m1_def)
    qed
    \<comment> \<open>the right half after its compaction\<close>
    have "unat z + unat (of_nat m1 :: size_t) < 2 ^ 64"
    proof -
      have "unat (of_nat m1 :: size_t) = m1" using m1h hb by (intro unat_of_nat64) linarith
      moreover have "3 * (2 :: nat) ^ 62 < 2 ^ 64" by simp
      ultimately show ?thesis using z m1h h62 by linarith
    qed
    then have "unat (z + of_nat m1) = unat z + m1"
      using unat_add_lem [of z "of_nat m1"] unat_of_nat64 [of m1] m1h hb by simp
    then have uzr: "unat ((z + of_nat m1) mod ?H) = zr" by (simp add: unat_mod uH zr_def)
    have keep1: "arr st1 ! i = arr st ! i" if "base + h \<le> i" "i < length (arr st)" for i
      unfolding st1_def using that len by (intro compact_outside) simp_all
    have me2: "melems st1 (base + h) h = melems st (base + h) h"
      using len by (intro melems_cong s1 keep1) simp_all
    have ih2: "arr st2 ! (base + h + (zr + i) mod h) = melems st (base + h) h ! i" if "i < m2" for i
    proof -
      have "pfx_ok (c + of_nat m1) st1 (base + h) h"
        unfolding pfx_ok_iff
      proof (intro allI impI)
        fix i assume "i < h"
        then have "h + i < h + h" by simp
        with pfx have "marked_prefix_sums st ! (base + (h + i))
            = c + of_nat (mcount st base (Suc (h + i)))"
          unfolding pfx_ok_iff by blast
        moreover have "mcount st base (Suc (h + i)) = m1 + mcount st (base + h) (Suc i)"
          using mcount_split [of st base h "Suc i"] by (simp add: m1_def)
        ultimately show "marked_prefix_sums st1 ! (base + h + i)
            = c + of_nat m1 + of_nat (mcount st1 (base + h) (Suc i))"
          by (simp add: s1 mcount_cong [OF s1(1)] add.assoc)
      qed
      from Suc.IH [of "base + h" st1 "c + of_nat m1" "(z + of_nat m1) mod ?H" i, folded h_def,
          OF _ _ this] that len k63 zrh s1
      show ?thesis by (simp add: uzr st2_def m2_def me2 mcount_cong [OF s1(1)])
    qed
    have keep2: "arr st2 ! i = arr st1 ! i" if "i < base + h" for i
      unfolding st2_def using that len s1 by (intro compact_outside) simp_all
    \<comment> \<open>the swap\<close>
    have sw: "arr (compact st base (2 * h) z) ! i
        = swapped (arr st2) base h h (swap_cond (2 * h) z (of_nat m1)) i"
      if "i < length (arr st)" for i
      unfolding e using swap_range_nth [of base "2 * h" st2 i z "of_nat m1"] that len s2 n
      by simp
    have sc: "swap_cond (2 * h) z (of_nat m1) i
         = ((((zl + m1 \<ge> h) \<noteq> (unat z \<ge> h))) \<noteq> (i \<ge> zr))" if "i < h" for i
      using swap_cond_nat [OF h0 h62 z m1h that] by (simp add: zl_def zr_def)
    have zsplit: "unat z = zl + (if unat z \<ge> h then h else 0)"
      using z by (simp add: zl_def mod_lt2)
    have msplit: "melems st base (2 * h) = melems st base h @ melems st (base + h) h"
      unfolding mult_2 by (rule melems_split)
    have goal: "arr (compact st base (2 * h) z) ! (base + (unat z + j) mod (2 * h))
        = melems st base (2 * h) ! j"
    proof (cases "j < m1")
      case True
      define p where "p = (zl + j) mod h"
      have ph: "p < h" unfolding p_def using h0 by simp
      have el: "melems st base (2 * h) ! j = arr st2 ! (base + p)"
        using True ih1 [OF True] keep2 [of "base + p"] ph
        by (simp add: msplit nth_append length_melems m1_def p_def)
      have q: "zl + j < 2 * h" using zlh True m1h by linarith
      have pos: "(unat z + j) mod (2 * h)
           = (if (zl + j \<ge> h) \<noteq> (unat z \<ge> h) then h + p else p)"
        using half_pos [OF q, of "unat z \<ge> h"] zsplit
        by (metis (no_types, lifting) add.assoc add.commute p_def)
      have core: "(p \<ge> zr) = ((zl + m1 \<ge> h) \<noteq> (zl + j \<ge> h))"
        using left_core [OF zlh m1h True] zsplit h0
        by (simp add: p_def zr_def zl_def mod_add_left_eq)
      have cnd: "swap_cond (2 * h) z (of_nat m1) p = ((zl + j \<ge> h) \<noteq> (unat z \<ge> h))"
        unfolding sc [OF ph] core by blast
      show ?thesis
      proof (cases "(zl + j \<ge> h) \<noteq> (unat z \<ge> h)")
        case cT: True
        have "arr (compact st base (2 * h) z) ! (base + h + p) = arr st2 ! (base + p)"
          using sw [of "base + h + p"] len ph cnd cT by (simp add: swapped_def)
        with pos cT el show ?thesis by (simp add: add.assoc)
      next
        case cF: False
        have "arr (compact st base (2 * h) z) ! (base + p) = arr st2 ! (base + p)"
          using sw [of "base + p"] len ph cnd cF by (simp add: swapped_def)
        with pos cF el show ?thesis by simp
      qed
    next
      case False
      define j' where "j' = j - m1"
      have j': "j' < m2" "j = m1 + j'" using False jm unfolding j'_def by linarith+
      have j'h: "j' < h" using j'(1) m2h by linarith
      define p where "p = (zr + j') mod h"
      have ph: "p < h" unfolding p_def using h0 by simp
      have el: "melems st base (2 * h) ! j = arr st2 ! (base + h + p)"
        using False ih2 [OF j'(1)]
        by (simp add: msplit nth_append length_melems m1_def p_def j'_def)
      have q: "zr + j' < 2 * h" using zrh j'h by linarith
      define w where "w = (zl + m1 \<ge> h)"
      define b where "b = (unat z \<ge> h)"
      have zlm: "zl + m1 = zr + (if w then h else 0)"
      proof -
        have "zl + m1 < 2 * h" using zlh m1h by linarith
        moreover have "zr = (zl + m1) mod h"
          by (simp add: zr_def zl_def mod_add_left_eq)
        ultimately show ?thesis by (simp add: mod_lt2 w_def)
      qed
      have tot: "unat z + j = zr + j' + (if w then h else 0) + (if b then h else 0)"
        using zsplit zlm j'(2) unfolding b_def by linarith
      have pos: "(unat z + j) mod (2 * h) = (if (zr + j' \<ge> h) \<noteq> (w \<noteq> b) then h + p else p)"
      proof (cases "w \<and> b")
        case True
        then have "unat z + j = zr + j' + 2 * h" using tot by simp
        then have "(unat z + j) mod (2 * h) = (zr + j' + (if False then h else 0)) mod (2 * h)"
          by simp
        also have "\<dots> = (if (zr + j' \<ge> h) \<noteq> False then h + p else p)"
          unfolding p_def by (rule half_pos [OF q])
        finally show ?thesis using True by simp
      next
        case nb: False
        then have t: "unat z + j = zr + j' + (if w \<noteq> b then h else 0)" using tot by auto
        show ?thesis unfolding t p_def by (rule half_pos [OF q])
      qed
      have core: "(p \<ge> zr) = (zr + j' < h)"
        unfolding p_def by (rule right_core [OF zrh j'h])
      have cnd: "swap_cond (2 * h) z (of_nat m1) p = ((w \<noteq> b) = (zr + j' \<ge> h))"
        unfolding sc [OF ph] core w_def b_def by auto
      show ?thesis
      proof (cases "(w \<noteq> b) = (zr + j' \<ge> h)")
        case cT: True
        have "arr (compact st base (2 * h) z) ! (base + p) = arr st2 ! (base + h + p)"
          using sw [of "base + p"] len ph cnd cT by (simp add: swapped_def ac_simps)
        moreover have "(unat z + j) mod (2 * h) = p" using pos cT by auto
        ultimately show ?thesis using el by simp
      next
        case cF: False
        have "arr (compact st base (2 * h) z) ! (base + h + p) = arr st2 ! (base + h + p)"
          using sw [of "base + h + p"] len ph cnd cF by (simp add: swapped_def)
        moreover have "(unat z + j) mod (2 * h) = h + p" using pos cF by auto
        ultimately show ?thesis using el by (simp add: add.assoc)
      qed
    qed
    show ?thesis unfolding hk by (rule goal)
  qed
qed

lemma window_nth: "base + n \<le> length (arr st) \<Longrightarrow> i < n \<Longrightarrow> window st base n ! i = arr st ! (base + i)"
  by (simp add: window_def)

lemma length_window: "base + n \<le> length (arr st) \<Longrightarrow> length (window st base n) = n"
  by (simp add: window_def)

lemma window_map: "base + n \<le> length (arr st) \<Longrightarrow> window st base n = map (\<lambda>i. arr st ! i) [base..<base + n]"
  by (rule nth_equalityI) (simp_all add: window_def)

lemma mset_map_partition:
  "mset (map f xs) = mset (map f (filter P xs)) + mset (map f (filter (\<lambda>x. \<not> P x) xs))"
  by (induction xs) simp_all

lemma mset_rotate1: "mset (rotate1 xs) = mset xs"
  by (cases xs) simp_all

lemma mset_rotate: "mset (rotate m xs) = mset xs"
  by (induction m) (simp_all add: mset_rotate1)

lemma mset_window_parts:
  "base + n \<le> length (arr st) \<Longrightarrow>
   mset (window st base n) = mset (melems st base n) + mset (uelems st base n)"
  unfolding window_map melems_def uelems_def by (rule mset_map_partition)

lemma compact_window_mset:
  assumes "base + n \<le> length (arr st)"
  shows "mset (window (compact st base n off) base n) = mset (window st base n)"
proof -
  let ?st' = "compact st base n off"
  have l: "length (arr ?st') = length (arr st)" by (simp add: compact_sel)
  have pre: "take base (arr ?st') = take base (arr st)"
    using assms l by (intro nth_equalityI) (simp_all add: compact_outside)
  have post: "drop (base + n) (arr ?st') = drop (base + n) (arr st)"
    using assms l by (intro nth_equalityI) (simp_all add: compact_outside)
  have d: "arr s = take base (arr s) @ window s base n @ drop (base + n) (arr s)" for s
    by (simp add: window_def take_add [symmetric] add.commute drop_take [symmetric] flip: drop_drop)
       (metis append_take_drop_id drop_drop add.commute)
  have "mset (arr ?st') = mset (arr st)" by (rule compact_mset [OF assms])
  then have "mset (take base (arr ?st')) + mset (window ?st' base n) + mset (drop (base + n) (arr ?st'))
      = mset (take base (arr st)) + mset (window st base n) + mset (drop (base + n) (arr st))"
    by (metis d mset_append add.assoc)
  then show ?thesis by (simp add: pre post)
qed

text \<open>
  C4 (as amended): let \<open>n\<close> be a power of two below \<open>2\<^sup>6\<^sup>4\<close>, let exactly \<open>n div 2\<close>
  of the \<open>n\<close> cells be marked, let the prefix sums be consistent and let the offset be
  below \<open>n\<close>.  After \<open>compact\<close> the marked records stand, in their original order, in
  the \<open>n div 2\<close> cells that start at position \<open>offset\<close> and wrap around modulo \<open>n\<close>,
  and the other cells hold the unmarked records: rotating the cells left by \<open>offset\<close>
  brings the marked records to the front.  With offset 0 the marked records are in
  \<open>[0, n div 2)\<close> and the unmarked ones in \<open>[n div 2, n)\<close>.
\<close>

theorem compact_correct:
  assumes "n = 2 ^ k" and "k < 64" and "base + n \<le> length (arr st)"
    and "pfx_ok c st base n" and "mcount st base n = n div 2" and "unat offset < n"
  shows "take (n div 2) (rotate (unat offset) (window (compact st base n offset) base n))
           = melems st base n
       \<and> mset (drop (n div 2) (rotate (unat offset) (window (compact st base n offset) base n)))
           = mset (uelems st base n)"
proof -
  let ?st' = "compact st base n offset"
  let ?w = "window ?st' base n"
  let ?r = "rotate (unat offset) ?w"
  have l: "length (arr ?st') = length (arr st)" by (simp add: compact_sel)
  have lw: "length ?w = n" using assms(3) l by (simp add: length_window)
  have n0: "0 < n" using assms(1) by simp
  have lm: "length (melems st base n) = n div 2" using assms(5) by (simp add: length_melems)
  have a: "take (n div 2) ?r = melems st base n"
  proof (rule nth_equalityI)
    show "length (take (n div 2) ?r) = length (melems st base n)"
      using lw lm by simp
  next
    fix j assume "j < length (take (n div 2) ?r)"
    then have j: "j < n div 2" "j < n" using lw by simp_all
    have m: "(unat offset + j) mod n < n" using n0 by simp
    have "take (n div 2) ?r ! j = ?w ! ((unat offset + j) mod n)"
      using j lw by (simp add: nth_rotate)
    also have "\<dots> = arr ?st' ! (base + (unat offset + j) mod n)"
      using assms(3) l m by (intro window_nth) simp_all
    also have "\<dots> = melems st base n ! j"
      using compact_places [of base k st c offset j] assms j by simp
    finally show "take (n div 2) ?r ! j = melems st base n ! j" .
  qed
  have "mset ?r = mset (window st base n)"
    using compact_window_mset [OF assms(3)] by (simp add: mset_rotate)
  then have "mset (take (n div 2) ?r) + mset (drop (n div 2) ?r)
      = mset (melems st base n) + mset (uelems st base n)"
    using mset_window_parts [OF assms(3)] by (metis append_take_drop_id mset_append)
  with a have b: "mset (drop (n div 2) ?r) = mset (uelems st base n)" by simp
  from a b show ?thesis by blast
qed

theorem compact_correct_witness:
  "(4 :: nat) = 2 ^ 2 \<and> (2 :: nat) < 64
   \<and> 0 + 4 \<le> length (arr (example_state [1, 2, 3, 4] [True, False, True, False] [1, 1, 2, 2] []))
   \<and> pfx_ok 0 (example_state [1, 2, 3, 4] [True, False, True, False] [1, 1, 2, 2] []) 0 4
   \<and> mcount (example_state [1, 2, 3, 4] [True, False, True, False] [1, 1, 2, 2] []) 0 4 = 4 div 2
   \<and> unat (1 :: size_t) < 4
   \<and> arr (compact (example_state [1, 2, 3, 4] [True, False, True, False] [1, 1, 2, 2] []) 0 4 1)
       = example_elems [2, 1, 3, 4]
   \<and> take (4 div 2) (rotate (unat (1 :: size_t))
         (window (compact (example_state [1, 2, 3, 4] [True, False, True, False] [1, 1, 2, 2] [])
                    0 4 1) 0 4))
       = example_elems [1, 3]
   \<and> mset (drop (4 div 2) (rotate (unat (1 :: size_t))
         (window (compact (example_state [1, 2, 3, 4] [True, False, True, False] [1, 1, 2, 2] [])
                    0 4 1) 0 4)))
       = mset (example_elems [2, 4])"
proof -
  let ?st = "example_state [1, 2, 3, 4] [True, False, True, False] [1, 1, 2, 2] []"
  have h1: "(4 :: nat) = 2 ^ 2" and h2: "(2 :: nat) < 64" by simp_all
  have h3: "0 + 4 \<le> length (arr ?st)" by (simp add: example_state_def example_elems_def)
  have h4: "pfx_ok 0 ?st 0 4" by code_simp
  have h5: "mcount ?st 0 4 = 4 div 2" by code_simp
  have h6: "unat (1 :: size_t) < 4" by simp
  have r: "arr (compact ?st 0 4 1) = example_elems [2, 1, 3, 4]" by code_simp
  have m: "melems ?st 0 4 = example_elems [1, 3]" by code_simp
  have u: "uelems ?st 0 4 = example_elems [2, 4]" by code_simp
  from compact_correct [OF h1 h2 h3 h4 h5 h6] h1 h2 h3 h4 h5 h6 r
  show ?thesis unfolding m u by blast
qed

text \<open>
  The shift is by the offset modulo \<open>n\<close>, not modulo \<open>n div 2\<close>: with four cells of which
  the first two are marked and offset 2, the marked records end in the cells 2 and 3,
  where a shift by \<open>2 mod 2 = 0\<close> would leave them in the cells 0 and 1.
\<close>

theorem compact_shift_counterexample:
  "pfx_ok 0 (example_state [1, 2, 3, 4] [True, True, False, False] [1, 2, 2, 2] []) 0 4
   \<and> mcount (example_state [1, 2, 3, 4] [True, True, False, False] [1, 2, 2, 2] []) 0 4 = 4 div 2
   \<and> arr (compact (example_state [1, 2, 3, 4] [True, True, False, False] [1, 2, 2, 2] []) 0 4 2)
       = example_elems [3, 4, 1, 2]
   \<and> take (4 div 2) (rotate (unat (2 :: size_t) mod (4 div 2))
         (window (compact (example_state [1, 2, 3, 4] [True, True, False, False] [1, 2, 2, 2] [])
                    0 4 2) 0 4))
       \<noteq> melems (example_state [1, 2, 3, 4] [True, True, False, False] [1, 2, 2, 2] []) 0 4"
  by code_simp

subsection \<open>The marking phase and the ORP ids\<close>

text \<open>
  C3: the marking phase of \<open>shuffle\<close> should mark exactly half of the cells for every
  outcome of the coins.  The comparison in the loop is \<^verbatim>\<open>>=\<close> where the sampling needs
  \<^verbatim>\<open><\<close>: with four cells and all coins 0 no cell is marked, with all coins
  \<open>2\<^sup>3\<^sup>2 - 1\<close> three cells are marked.  The prefix sums do count the marks.
\<close>

theorem mark_loop_not_half:
  "mark_loop (example_state [1, 2, 3, 4] [False, False, False, False] [0, 0, 0, 0]
                [0, 0, 0, 0]) 0 4 0 4 0
     = Inr (example_state [1, 2, 3, 4] [False, False, False, False] [0, 0, 0, 0] [])
   \<and> mark_loop (example_state [1, 2, 3, 4] [False, False, False, False] [0, 0, 0, 0]
                [4294967295, 4294967295, 4294967295, 4294967295]) 0 4 0 4 0
     = Inr (example_state [1, 2, 3, 4] [True, True, True, False] [1, 2, 3, 3] [])"
  by code_simp

lemma assign_random_id_length0:
  "a_length args = 0 \<Longrightarrow> assign_random_id (args, r) i = (args, r)"
  by (simp add: assign_random_id_def)

lemma thread_work_iter_assign_length0:
  "a_length args = 0 \<Longrightarrow> thread_work_iter assign_random_id schedule (args, r) = (args, r)"
  unfolding thread_work_iter_def
  by (induction schedule) (simp_all add: assign_random_id_length0)

text \<open>
  C2: after the shuffle \<^verbatim>\<open>orshuffle_sort\<close> should give every record a fresh random ORP
  id.  The task's arguments are initialised with \<^verbatim>\<open>.length = 0\<close>, so every shard runs over
  the empty range: for every array, every number of threads, every order of the shards and
  every entropy source the step returns the array and the entropy source as they were.
\<close>

theorem orshuffle_sort_assign_ids_noop:
  "orshuffle_sort_assign_ids arr0 n num_threads schedule r = Inr (arr0, r)"
  by (simp add: orshuffle_sort_assign_ids_def thread_work_iter_assign_length0)

subsection \<open>The status of the merge passes\<close>

lemma merge_loop_ret: "m_ret (merge_loop args rs mi oi) = m_ret args"
proof (induction args rs mi oi rule: merge_loop.induct)
  case (1 args run_start merge_indices output_idx)
  obtain d lr li where s: "scan_lowest args run_start merge_indices = (d, lr, li)"
    by (metis prod_cases3)
  show ?case
  proof (cases d)
    case True
    with s show ?thesis by (simp add: merge_loop.simps [of args run_start merge_indices])
  next
    case False
    from "1.IH" [OF s [symmetric] refl False] s False
    show ?thesis by (simp add: merge_loop.simps [of args run_start merge_indices])
  qed
qed

lemma mergesort_pass_ret0:
  "m_ret args = 0 \<Longrightarrow> m_ret (mergesort_pass alloc_errno args run_idx) = 0"
  by (simp add: mergesort_pass_def Let_def atomic_compare_exchange_n_def merge_loop_ret)

lemma thread_work_iter_mergesort_pass_ret0:
  "m_ret args = 0 \<Longrightarrow> m_ret (thread_work_iter (mergesort_pass alloc_errno) schedule args) = 0"
  unfolding thread_work_iter_def
  by (induction schedule arbitrary: args) (simp_all add: mergesort_pass_ret0)

lemma mergesort_passes_succeeds:
  "\<exists>r. mergesort_passes schedule alloc_errno n run_length inp outp b = Inr r"
proof (induction schedule alloc_errno n run_length inp outp b rule: mergesort_passes.induct)
  case (1 schedule alloc_errno n run_length inp outp b)
  show ?case
  proof (cases "0 < run_length \<and> run_length < n")
    case False
    then have "mergesort_passes schedule alloc_errno n run_length inp outp b = Inr (inp, outp, b)"
      by (subst mergesort_passes.simps) (simp only: if_False)
    then show ?thesis by blast
  next
    case True
    let ?args = "\<lparr>m_input = inp, m_output = outp, m_length = n,
                    m_run_length = run_length, m_ret = 0\<rparr>"
    let ?args' = "thread_work_iter (mergesort_pass alloc_errno)
                      (schedule (CEIL_DIV n (run_length * BUF_SIZE))) ?args"
    have z: "m_ret ?args' = 0"
      by (rule thread_work_iter_mergesort_pass_ret0) simp
    from "1.IH" [OF True refl refl refl] z True
    show ?thesis
      by (simp add: mergesort_passes.simps [of schedule alloc_errno n run_length] Let_def)
  qed
qed

lemma mergesort_succeeds:
  "\<exists>r. mergesort schedule alloc_errno arr0 out n = Inr r"
proof -
  obtain r where "mergesort_passes schedule alloc_errno n BUF_SIZE
     (f_arr (thread_work_iter mergesort_first_pass (schedule (CEIL_DIV n BUF_SIZE))
         \<lparr>f_arr = arr0, f_length = n\<rparr>)) out False = Inr r"
    using mergesort_passes_succeeds by blast
  then show ?thesis
    by (cases r) (auto simp: mergesort_def Let_def)
qed

text \<open>
  C8: a shard of an iter-task that ends with a non-zero status should publish it in the
  shared \<^verbatim>\<open>ret\<close>.  \<^verbatim>\<open>mergesort_pass\<close> calls the compare-exchange with the arguments
  the other way round (expected: its own status, desired: 0), so a shared status that
  starts at 0 stays 0 although the allocation fails with status 12 in every shard, and
  \<^verbatim>\<open>mergesort\<close> returns 0.
\<close>

theorem mergesort_pass_status_lost:
  "m_ret (mergesort_pass (\<lambda>i. 12)
            \<lparr>m_input = inp, m_output = outp, m_length = n, m_run_length = rl, m_ret = 0\<rparr> 0) = 0
   \<and> m_ret (thread_work_iter (mergesort_pass (\<lambda>i. 12)) schedule
            \<lparr>m_input = inp, m_output = outp, m_length = n, m_run_length = rl, m_ret = 0\<rparr>) = 0
   \<and> (\<exists>r. mergesort sched (\<lambda>i. 12) arr0 out n = Inr r)"
  using mergesort_succeeds [of sched "\<lambda>i. 12" arr0 out n]
  by (simp add: mergesort_pass_ret0 thread_work_iter_mergesort_pass_ret0)

subsection \<open>The sample partition\<close>

lemma length_filter_update:
  "i < length xs \<Longrightarrow>
   length (filter P (xs[i := v])) + (if P (xs ! i) then 1 else 0)
     = length (filter P xs) + (if P v then 1 else 0)"
proof (induction xs arbitrary: i)
  case Nil
  then show ?case by simp
next
  case (Cons x xs)
  show ?case
  proof (cases i)
    case 0
    then show ?thesis by simp
  next
    case (Suc j)
    with Cons.prems have "j < length xs" by simp
    from Cons.IH [OF this] Suc show ?thesis by simp
  qed
qed

lemma live_retire:
  "i < length reqs \<Longrightarrow> reqs ! i \<noteq> MPI_TLS_NULL \<Longrightarrow>
   live (reqs[i := MPI_TLS_NULL]) + 1 = live reqs"
  using length_filter_update [of i reqs "\<lambda>t. t \<noteq> MPI_TLS_NULL" MPI_TLS_NULL]
  by (simp add: live_def)

lemma live_repost:
  "i < length reqs \<Longrightarrow> reqs ! i \<noteq> MPI_TLS_NULL \<Longrightarrow> t \<noteq> MPI_TLS_NULL \<Longrightarrow>
   live (reqs[i := t]) = live reqs"
  using length_filter_update [of i reqs "\<lambda>t. t \<noteq> MPI_TLS_NULL" t]
  by (simp add: live_def)

lemma live_post:
  "i < length reqs \<Longrightarrow> reqs ! i = MPI_TLS_NULL \<Longrightarrow> t \<noteq> MPI_TLS_NULL \<Longrightarrow>
   live (reqs[i := t]) = live reqs + 1"
  using length_filter_update [of i reqs "\<lambda>t. t \<noteq> MPI_TLS_NULL" t]
  by (simp add: live_def)

lemma live_zero: "live reqs = 0 \<Longrightarrow> i < length reqs \<Longrightarrow> reqs ! i = MPI_TLS_NULL"
  unfolding live_def by (metis (mono_tags, lifting) filter_False length_0_conv filter_empty_conv nth_mem)

lemma post_recv_cinv:
  assumes "post_recv i st = Inr st'"
  shows "requests st' = (requests st)[i := MPI_TLS_RECV]"
    and "requests_len st' = requests_len st" and "num_received st' = num_received st"
  using assms by (auto simp: post_recv_def post_request_def split: list.splits if_splits)

lemma post_send_cinv:
  assumes "post_send arr0 idxs i st = Inr st'"
  shows "requests st' = (requests st)[i := MPI_TLS_SEND]"
    and "requests_len st' = requests_len st" and "num_received st' = num_received st"
  using assms by (auto simp: post_send_def post_request_def Let_def split: list.splits if_splits)

lemma min_buf_zero [simp]: "(min x SAMPLE_PARTITION_BUF_SIZE = 0) = (x = 0)"
  by (auto simp: SAMPLE_PARTITION_BUF_SIZE_def min_def)

lemma unat_minus_one': "unat (x :: size_t) = Suc k \<Longrightarrow> unat (x - 1) = k"
  by (cases "x = 0") (simp_all add: unat_minus_one)

lemma completion_loop_received:
  "cinv W r src st \<Longrightarrow> r < W \<Longrightarrow>
   completion_loop arr0 idxs src r events st = Returned st' \<Longrightarrow> num_received st' = src"
proof (induction events arbitrary: st)
  case Nil
  show ?case
  proof (cases "requests_len st = 0")
    case True
    with Nil.prems have "st' = st" "live (requests st) = 0" "length (requests st) = W"
      by (simp_all add: cinv_def)
    with live_zero [of "requests st" r] Nil.prems(1,2) show ?thesis by (simp add: cinv_def)
  next
    case False
    with Nil.prems show ?thesis by simp
  qed
next
  case (Cons ev events)
  show ?case
  proof (cases "requests_len st = 0")
    case True
    with Cons.prems have "st' = st" "live (requests st) = 0" "length (requests st) = W"
      by (simp_all add: cinv_def)
    with live_zero [of "requests st" r] Cons.prems(1,2) show ?thesis by (simp add: cinv_def)
  next
    case False
    with Cons.prems(3) obtain index data where
      w: "mpi_tls_waitany (requests st) ev = Some (Inr (index, data))"
      by (auto split: option.splits sum.splits)
    then have idx: "index < length (requests st)" "requests st ! index \<noteq> MPI_TLS_NULL"
      by (auto simp: mpi_tls_waitany_def split: completion.splits if_splits)
    from Cons.prems(1) have len: "length (requests st) = W"
      and rl: "unat (requests_len st) = live (requests st)"
      and nr: "requests st ! r = MPI_TLS_NULL \<longrightarrow> num_received st = src"
      by (simp_all add: cinv_def)
    from live_retire [OF idx] rl have rl1: "unat (requests_len st) = Suc (live ((requests st)[index := MPI_TLS_NULL]))"
      by simp
    show ?thesis
    proof (cases "index = r")
      case True
      let ?st1 = "st\<lparr>p_out := take (unat (num_received st)) (p_out st) @ data
                                     @ drop (unat (num_received st) + length data) (p_out st),
                           num_received := num_received st + of_nat (length data)\<rparr>"
      have fits: "\<not> length (p_out st) < unat (num_received st) + length data"
      proof
        assume "length (p_out st) < unat (num_received st) + length data"
        with Cons.prems(3) False w True show False by simp
      qed
      show ?thesis
      proof (cases "src - num_received ?st1 \<noteq> 0")
        case keep: True
        with Cons.prems(3) False w True fits obtain st2 where
          p: "post_recv index ?st1 = Inr st2" and
          c: "completion_loop arr0 idxs src r events st2 = Returned st'"
          by (auto simp: Let_def word_gt_0 split: sum.splits)
        have "cinv W r src st2"
          using post_recv_cinv [OF p] len rl idx True live_repost [OF idx, of MPI_TLS_RECV]
          by (simp add: cinv_def)
        from Cons.IH [OF this Cons.prems(2) c] show ?thesis .
      next
        case stop: False
        with Cons.prems(3) \<open>requests_len st \<noteq> 0\<close> w True fits have
          c: "completion_loop arr0 idxs src r events (retire index ?st1) = Returned st'"
          by (simp add: Let_def word_gt_0)
        from stop have "num_received ?st1 = src" by simp
        then have "cinv W r src (retire index ?st1)"
          using len rl1 True by (simp add: cinv_def retire_def unat_minus_one')
        from Cons.IH [OF this Cons.prems(2) c] show ?thesis .
      qed
    next
      case other: False
      show ?thesis
      proof (cases "idxs ! index - sample_scan_idxs st ! index \<noteq> 0")
        case keep: True
        with Cons.prems(3) False w other obtain st2 where
          p: "post_send arr0 idxs index st = Inr st2" and
          c: "completion_loop arr0 idxs src r events st2 = Returned st'"
          by (auto simp: Let_def word_gt_0 split: sum.splits)
        have "cinv W r src st2"
          using post_send_cinv [OF p] len rl nr idx other live_repost [OF idx, of MPI_TLS_SEND]
          by (simp add: cinv_def)
        from Cons.IH [OF this Cons.prems(2) c] show ?thesis .
      next
        case stop: False
        with Cons.prems(3) \<open>requests_len st \<noteq> 0\<close> w other have
          c: "completion_loop arr0 idxs src r events (retire index st) = Returned st'"
          by (simp add: Let_def word_gt_0)
        have "cinv W r src (retire index st)"
          using len rl1 nr other by (simp add: cinv_def retire_def unat_minus_one')
        from Cons.IH [OF this Cons.prems(2) c] show ?thesis .
      qed
    qed
  qed
qed


lemma iinv_post:
  assumes inv: "iinv W r src (i # is) st"
    and req: "requests st' = (requests st)[i := t]" and t: "t \<noteq> MPI_TLS_NULL"
    and len: "requests_len st' = requests_len st" and nr: "num_received st' = num_received st"
  shows "iinv W r src is st'"
proof -
  from inv have l: "length (requests st) = W" and d: "distinct (i # is)"
    and n: "\<forall>j\<in>set (i # is). j < W \<and> requests st ! j = MPI_TLS_NULL"
    and c: "unat (requests_len st) = live (requests st) + length (i # is)"
    and p: "r \<notin> set (i # is) \<longrightarrow> requests st ! r = MPI_TLS_NULL \<longrightarrow> num_received st = src"
    by (simp_all add: iinv_def)
  from n l have i: "i < length (requests st)" "requests st ! i = MPI_TLS_NULL" by simp_all
  have "live (requests st') = live (requests st) + 1"
    using live_post [OF i t] req by simp
  moreover have "\<forall>j\<in>set is. j < W \<and> requests st' ! j = MPI_TLS_NULL"
    using n d req i by (auto simp: nth_list_update)
  moreover have "r \<notin> set is \<longrightarrow> requests st' ! r = MPI_TLS_NULL \<longrightarrow> num_received st' = src"
    using p req nr i t by (cases "r = i") auto
  ultimately show ?thesis using l d c req len by (simp add: iinv_def)
qed

lemma iinv_retire:
  assumes inv: "iinv W r src (i # is) st"
    and r: "i = r \<longrightarrow> num_received st = src"
  shows "iinv W r src is (retire i st)"
proof -
  from inv have l: "length (requests st) = W" and d: "distinct (i # is)"
    and n: "\<forall>j\<in>set (i # is). j < W \<and> requests st ! j = MPI_TLS_NULL"
    and c: "unat (requests_len st) = live (requests st) + length (i # is)"
    and p: "r \<notin> set (i # is) \<longrightarrow> requests st ! r = MPI_TLS_NULL \<longrightarrow> num_received st = src"
    by (simp_all add: iinv_def)
  from n have "requests st ! i = MPI_TLS_NULL" by simp
  then have same: "(requests st)[i := MPI_TLS_NULL] = requests st"
    by (metis list_update_id)
  have "unat (requests_len st - 1) = live (requests st) + length is"
    using c by (simp add: unat_minus_one')
  moreover have "r \<notin> set is \<longrightarrow> requests st ! r = MPI_TLS_NULL \<longrightarrow> num_received st = src"
    using p r by (cases "r = i") auto
  ultimately show ?thesis using l d n same by (simp add: iinv_def retire_def)
qed

lemma initial_requests_cinv:
  "iinv W r src is st \<Longrightarrow> initial_requests arr0 idxs src r is st = Inr st' \<Longrightarrow> cinv W r src st'"
proof (induction "is" arbitrary: st)
  case Nil
  then show ?case by (simp add: iinv_def cinv_def)
next
  case (Cons i "is")
  show ?case
  proof (cases "i = r")
    case True
    show ?thesis
    proof (cases "src - num_received st \<noteq> 0")
      case keep: True
      with Cons.prems(2) True obtain st1 where
        p: "post_recv i st = Inr st1" and
        c: "initial_requests arr0 idxs src r is st1 = Inr st'"
        by (auto simp: Let_def word_gt_0 split: sum.splits)
      from iinv_post [OF Cons.prems(1) post_recv_cinv(1) [OF p] _ post_recv_cinv(2,3) [OF p]]
      have "iinv W r src is st1" by simp
      from Cons.IH [OF this c] show ?thesis .
    next
      case stop: False
      with Cons.prems(2) True have
        c: "initial_requests arr0 idxs src r is (retire i st) = Inr st'"
        by (simp add: Let_def word_gt_0)
      from stop have "num_received st = src" by simp
      with iinv_retire [OF Cons.prems(1)] have "iinv W r src is (retire i st)" by simp
      from Cons.IH [OF this c] show ?thesis .
    qed
  next
    case other: False
    show ?thesis
    proof (cases "sample_scan_idxs st ! i < idxs ! i")
      case keep: True
      with Cons.prems(2) other obtain st1 where
        p: "post_send arr0 idxs i st = Inr st1" and
        c: "initial_requests arr0 idxs src r is st1 = Inr st'"
        by (auto split: sum.splits)
      from iinv_post [OF Cons.prems(1) post_send_cinv(1) [OF p] _ post_send_cinv(2,3) [OF p]]
      have "iinv W r src is st1" by simp
      from Cons.IH [OF this c] show ?thesis .
    next
      case stop: False
      with Cons.prems(2) other have
        c: "initial_requests arr0 idxs src r is (retire i st) = Inr st'"
        by simp
      from iinv_retire [OF Cons.prems(1)] other have "iinv W r src is (retire i st)" by simp
      from Cons.IH [OF this c] show ?thesis .
    qed
  qed
qed

lemma live_replicate_null [simp]: "live (replicate n MPI_TLS_NULL) = 0"
  by (simp add: live_def)

lemma src_local_length_single: "src_local_length total_length 0 (Suc 0) = total_length"
  by (simp add: src_local_length_def src_local_start_def)

lemma src_local_length_floor:
  assumes "0 < W" "unat N * (r + 1) < 2 ^ 64" "W < 2 ^ 64"
  shows "unat (src_local_length N r W) = unat N * (r + 1) div W - unat N * r div W"
proof (cases "N = 0")
  case True
  then show ?thesis by (simp add: src_local_length_def src_local_start_def)
next
  case False
  then have "0 < unat N" by (simp add: unat_gt_0)
  then have "r + 1 \<le> unat N * (r + 1)" by (cases "unat N") simp_all
  with assms(2) have rb: "r + 1 < 2 ^ 64" by linarith
  have w: "unat (of_nat W :: size_t) = W"
    using assms(3) by (rule unat_of_nat64)
  have r0: "unat (of_nat r :: size_t) = r"
    using rb by (simp add: unat_of_nat64)
  have r1: "unat (of_nat r + 1 :: size_t) = r + 1"
    using rb unat_of_nat64 [of "r + 1"] by (simp add: add.commute)
  have m1: "unat (N * (of_nat r + 1)) = unat N * (r + 1)"
    using assms(2) r1 unat_mult_lem [of N "of_nat r + 1"] by simp
  have "unat N * r \<le> unat N * (r + 1)" by simp
  with assms(2) have "unat N * r < 2 ^ 64" by linarith
  then have m0: "unat (N * of_nat r) = unat N * r"
    using r0 unat_mult_lem [of N "of_nat r"] by simp
  have d1: "unat (N * (of_nat r + 1) div of_nat W) = unat N * (r + 1) div W"
    by (simp add: unat_div m1 w)
  have d0: "unat (N * of_nat r div of_nat W) = unat N * r div W"
    by (simp add: unat_div m0 w)
  have "unat N * r div W \<le> unat N * (r + 1) div W"
    by (rule div_le_mono) simp
  then have "N * of_nat r div of_nat W \<le> N * (of_nat r + 1) div of_nat W"
    by (simp add: word_le_nat_alt d0 d1)
  then show ?thesis
    by (simp add: src_local_length_def src_local_start_def unat_sub d0 d1)
qed


lemma partition_loops_received:
  assumes r: "r < W" and W: "W < 2 ^ 64"
    and st: "requests st = replicate W MPI_TLS_NULL" "requests_len st = of_nat W"
    and i: "initial_requests arr0 idxs src r [0..<W] st = Inr st1"
    and c: "completion_loop arr0 idxs src r events st1 = Returned st2"
  shows "num_received st2 = src"
proof -
  have "iinv W r src [0..<W] st"
    using r W st by (simp add: iinv_def unat_of_nat64)
  from initial_requests_cinv [OF this i] have "cinv W r src st1" .
  from completion_loop_received [OF this r c] show ?thesis .
qed

text \<open>
  On the worker \<open>world_rank\<close> of \<open>world_size\<close> workers the assertion before the return
  of \<^verbatim>\<open>distributed_sample_partition\<close> never fails, and a run that returns has placed
  exactly \<^verbatim>\<open>src_local_length\<close> records in the output buffer, for every outcome of the
  quickselect and every behaviour of the transport.  The function computes that number as
  \<open>\<lfloor>(r + 1) N / W\<rfloor> - \<lfloor>r N / W\<rfloor>\<close> (C's division truncates), as long as
  \<open>(r + 1) N\<close> fits a \<^verbatim>\<open>size_t\<close>.
\<close>

lemma sample_partition_received:
  assumes "world_rank < world_size" and "world_size < 2 ^ 31"
  shows "distributed_sample_partition world_rank world_size quickselect post_statuses events
           arr0 out local_length total_length \<noteq> Aborted
       \<and> (\<forall>out' n. distributed_sample_partition world_rank world_size quickselect post_statuses
                       events arr0 out local_length total_length = Returned (out', n)
                    \<longrightarrow> n = src_local_length total_length world_rank world_size)
       \<and> (unat total_length * (world_rank + 1) < 2 ^ 64 \<longrightarrow>
            unat (src_local_length total_length world_rank world_size)
              = unat total_length * (world_rank + 1) div world_size
                - unat total_length * world_rank div world_size)"
proof -
  let ?src = "src_local_length total_length world_rank world_size"
  let ?run = "distributed_sample_partition world_rank world_size quickselect post_statuses events
           arr0 out local_length total_length"
  have W: "world_size < 2 ^ 64"
    using assms(2) by (rule less_trans) simp
  have fl: "unat total_length * (world_rank + 1) < 2 ^ 64 \<longrightarrow>
            unat ?src = unat total_length * (world_rank + 1) div world_size
                - unat total_length * world_rank div world_size"
    using src_local_length_floor [of world_size total_length world_rank] assms(1) W by simp
  have main: "?run \<noteq> Aborted \<and> (\<forall>out' n. ?run = Returned (out', n) \<longrightarrow> n = ?src)"
  proof (cases "world_size = 1")
    case True
    with assms(1) have "world_rank = 0" by simp
    with True show ?thesis
      by (simp add: distributed_sample_partition_def src_local_length_single)
  next
    case False
    show ?thesis
    proof (cases quickselect)
      case (Inl ret)
      with False show ?thesis by (simp add: distributed_sample_partition_def)
    next
      case (Inr idxs)
      let ?sample_idxs = "take (world_size - 1) idxs @ [local_length]"
      let ?scan = "0 # take (world_size - 1) idxs"
      let ?num = "?sample_idxs ! world_rank - ?scan ! world_rank"
      let ?st = "\<lparr>p_out = slice arr0 (?scan ! world_rank) ?num @ drop (unat ?num) out,
                     num_received = ?num,
                     sample_scan_idxs = ?scan[world_rank := ?sample_idxs ! world_rank],
                     requests = replicate world_size MPI_TLS_NULL,
                     requests_len = of_nat world_size,
                     posts = post_statuses,
                     sent = []\<rparr>"
      let ?over = "length arr0 < unat (?scan ! world_rank) + unat ?num \<or> length out < unat ?num"
      have run: "?run = (if ?over then Overrun
              else case initial_requests arr0 ?sample_idxs ?src world_rank [0..<world_size] ?st of
                Inl ret \<Rightarrow> Failed ret
              | Inr st1 \<Rightarrow>
                  (case completion_loop arr0 ?sample_idxs ?src world_rank events st1 of
                     Returned st2 \<Rightarrow>
                       if num_received st2 = ?src then Returned (p_out st2, num_received st2)
                       else Aborted
                   | Failed ret \<Rightarrow> Failed ret
                   | Blocked \<Rightarrow> Blocked
                   | Aborted \<Rightarrow> Aborted
                   | Overrun \<Rightarrow> Overrun))"
        unfolding distributed_sample_partition_def Let_def
        by (simp only: False Inr if_False sum.case)
      show ?thesis
      proof (cases ?over)
        case True
        with run show ?thesis by simp
      next
      case fits: False
      show ?thesis
      proof (cases "initial_requests arr0 ?sample_idxs ?src world_rank [0..<world_size] ?st")
        case (Inl ret)
        with run fits show ?thesis by simp
      next
        case st1: (Inr st1)
        have never: "completion_loop arr0 ?sample_idxs ?src world_rank events st1 \<noteq> Aborted"
          for events
        proof (induction events arbitrary: st1)
          case Nil
          show ?case by simp
        next
          case (Cons ev events)
          then show ?case
            by (auto simp: Let_def split: option.splits sum.splits)
        qed
        show ?thesis
        proof (cases "completion_loop arr0 ?sample_idxs ?src world_rank events st1")
          case (Returned st2)
          have "num_received st2 = ?src"
            by (rule partition_loops_received [OF assms(1) W _ _ st1 Returned]) simp_all
          with run fits st1 Returned show ?thesis by simp
        next
          case (Failed ret)
          with run fits st1 show ?thesis by simp
        next
          case Blocked
          with run fits st1 show ?thesis by simp
        next
          case Aborted
          with never show ?thesis by simp
        next
          case Overrun
          with run fits st1 show ?thesis by simp
        qed
      qed
      qed
    qed
  qed
  from main fl show ?thesis by blast
qed

text \<open>
  Claim C7.  The share of a worker is \<open>\<lceil>(r + 1) N / W\<rceil> - \<lceil>r N / W\<rceil>\<close>: the host computes
  \<^verbatim>\<open>local_length\<close> so, allocates the array of the worker for it and checks the result by
  it.  \<^verbatim>\<open>distributed_sample_partition\<close> computes \<^verbatim>\<open>src_local_length\<close> with truncating
  divisions instead.  With three records on two workers the host gives worker 0 two cells
  and worker 1 one cell.  Worker 0, holding the keys 20 and 30, sends both to worker 1,
  receives the key 10 and returns with one record, where its share is two.  Worker 1,
  holding the key 10, expects two records, and the chunk of two that arrives leaves an
  output buffer of the one cell of its share.
\<close>

theorem sample_partition_floor_share:
  "host_local_length 3 0 2 = 2 \<and> host_local_length 3 1 2 = 1
   \<and> spec_local_length 3 0 2 = 2 \<and> spec_local_length 3 1 2 = 1
   \<and> src_local_length 3 0 2 = 1 \<and> src_local_length 3 1 2 = 2
   \<and> distributed_sample_partition 0 2 (Inr [0]) []
         [Completed 0 (example_elems [10]), Completed 1 []]
         (example_elems [20, 30]) (example_elems [0, 0]) (host_local_length 3 0 2) 3
       = Returned (example_elems [10, 0], 1)
   \<and> distributed_sample_partition 1 2 (Inr [1]) []
         [Completed 1 (example_elems [20, 30])]
         (example_elems [10]) (example_elems [0]) (host_local_length 3 1 2) 3
       = Overrun"
  by code_simp

subsection \<open>The comparator\<close>

text \<open>
  C9: for all records a and b the comparator equals
  (sign(a.key - b.key) << 1) + sign(a.orp_id - b.orp_id), where the signs are those of the
  differences of the unsigned field values; the value lies in [-3, 3], far inside the range
  of a C int, so nothing overflows; its sign is the sign of the lexicographic comparison of
  (key, orp_id); and it is 0 exactly when a and b agree on key and on orp_id.
\<close>

theorem mergesort_comparator_correct:
  "mergesort_comparator a b
     = push_bit 1 (sgn (int (unat (key a)) - int (unat (key b))))
       + sgn (int (unat (orp_id a)) - int (unat (orp_id b)))
   \<and> - 3 \<le> mergesort_comparator a b \<and> mergesort_comparator a b \<le> 3
   \<and> sgn (mergesort_comparator a b) = lex_sign a b
   \<and> ((mergesort_comparator a b = 0) = (key a = key b \<and> orp_id a = orp_id b))"
proof -
  have eq: "mergesort_comparator a b
     = push_bit 1 (sgn (int (unat (key a)) - int (unat (key b))))
       + sgn (int (unat (orp_id a)) - int (unat (orp_id b)))"
    by (simp add: mergesort_comparator_def Let_def comp3_sgn)
  have cs: "mergesort_comparator a b
     = 2 * (if key a < key b then - 1 else if key a = key b then 0 else 1)
       + (if orp_id a < orp_id b then - 1 else if orp_id a = orp_id b then 0 else 1)"
    by (simp add: mergesort_comparator_def Let_def comp3_cases)
  have rng: "- 3 \<le> mergesort_comparator a b \<and> mergesort_comparator a b \<le> 3"
    unfolding cs by simp
  have sg: "sgn (mergesort_comparator a b) = lex_sign a b"
    unfolding cs lex_sign_def by auto
  have z: "(mergesort_comparator a b = 0) = (key a = key b \<and> orp_id a = orp_id b)"
    unfolding cs by auto
  from eq rng sg z show ?thesis by blast
qed

subsection \<open>The distributed quickselect\<close>

lemma srank_sample_of [simp]: "srank (sample_of e) = rank e"
  by (simp add: srank_def rank_def sample_of_def)

lemma elem_sample_comparator_cases:
  "elem_sample_comparator a b
     = 2 * (if key a < s_key b then - 1 else if key a = s_key b then 0 else 1)
       + (if orp_id a < s_orp_id b then - 1 else if orp_id a = s_orp_id b then 0 else 1)"
  by (simp add: elem_sample_comparator_def Let_def comp3_cases)

lemma cmp_gt: "(elem_sample_comparator a b > 0) = (srank b < rank a)"
  unfolding elem_sample_comparator_cases by (auto simp: srank_def rank_def less_prod_def)

lemma cmp_lt: "(elem_sample_comparator a b < 0) = (rank a < srank b)"
  unfolding elem_sample_comparator_cases by (auto simp: srank_def rank_def less_prod_def)

lemma same_outside_refl [simp]: "same_outside a a l r"
  by (simp add: same_outside_def)

lemma same_outside_trans:
  "same_outside a2 a1 l1 r1 \<Longrightarrow> same_outside a3 a2 l2 r2 \<Longrightarrow> l \<le> l1 \<Longrightarrow> l \<le> l2 \<Longrightarrow>
   r1 \<le> r \<Longrightarrow> r2 \<le> r \<Longrightarrow> same_outside a3 a1 l r"
  unfolding same_outside_def by (metis (no_types, lifting) le_trans less_le_trans)

lemma same_outside_swap:
  assumes "same_outside a a0 l r" "l \<le> i" "i < r" "l \<le> j" "j < r" "r \<le> length a0"
  shows "same_outside (a[i := a ! j, j := a ! i]) a0 l r"
proof -
  have len: "length a = length a0" using assms(1) by (simp add: same_outside_def)
  have "mset (a[i := a ! j, j := a ! i]) = mset a"
    using assms len by (intro mset_swap) simp_all
  then show ?thesis using assms(1-5) by (auto simp: same_outside_def)
qed

lemma same_outside_window_mset:
  assumes "same_outside a' a l r" "l \<le> r" "r \<le> length a"
  shows "mset (take (r - l) (drop l a')) = mset (take (r - l) (drop l a))"
proof -
  have len: "length a' = length a" and ms: "mset a' = mset a"
    using assms(1) by (simp_all add: same_outside_def)
  have out: "a' ! p = a ! p" if "p < length a" "p < l \<or> r \<le> p" for p
    using assms(1) that unfolding same_outside_def by blast
  have pre: "take l a' = take l a"
    using assms len by (intro nth_equalityI) (simp_all add: out)
  have post: "drop r a' = drop r a"
    using assms len by (intro nth_equalityI) (simp_all add: out)
  have d: "xs = take l xs @ take (r - l) (drop l xs) @ drop r xs" for xs :: "'a list"
  proof -
    have "drop l xs = take (r - l) (drop l xs) @ drop (r - l) (drop l xs)"
      by (rule append_take_drop_id [symmetric])
    moreover have "drop (r - l) (drop l xs) = drop r xs" using assms(2) by simp
    ultimately have "drop l xs = take (r - l) (drop l xs) @ drop r xs" by metis
    then show ?thesis by (metis append_take_drop_id)
  qed
  have "mset (take l a') + mset (take (r - l) (drop l a')) + mset (drop r a')
      = mset (take l a) + mset (take (r - l) (drop l a)) + mset (drop r a)"
    using ms by (metis d mset_append add.assoc)
  then show ?thesis by (simp add: pre post)
qed

lemma same_outside_window_elem:
  assumes "same_outside a' a l r" "l \<le> r" "r \<le> length a" "l \<le> p" "p < r"
  shows "\<exists>q. l \<le> q \<and> q < r \<and> a' ! p = a ! q"
proof -
  have len: "length a' = length a" using assms(1) by (simp add: same_outside_def)
  have "a' ! p = take (r - l) (drop l a') ! (p - l)" using assms len by simp
  moreover have "p - l < length (take (r - l) (drop l a'))" using assms len by simp
  ultimately have "a' ! p \<in> set (take (r - l) (drop l a'))" by (metis nth_mem)
  then have "a' ! p \<in> set (take (r - l) (drop l a))"
    using same_outside_window_mset [OF assms(1-3)] by (metis set_mset_mset)
  then obtain k where k: "k < length (take (r - l) (drop l a))"
      "take (r - l) (drop l a) ! k = a' ! p"
    by (metis in_set_conv_nth)
  then have "k < r - l" "a ! (l + k) = a' ! p" using assms by simp_all
  then show ?thesis by (intro exI [of _ "l + k"]) auto
qed

lemma partition_loop_spec:
  assumes "l \<le> r" "r \<le> length a0"
    and res: "partition_loop a0 pivot l r PARTITION_SCAN_LEFT = (a', pl, pr)"
  shows "same_outside a' a0 l r \<and> pl = pr \<and> parted a' pivot l pr pl r"
proof -
  have "\<exists>s'. loop_inv a0 pivot l r a' pl pr s' \<and> \<not> pl < pr"
  proof (rule partition_loop_rule [of "loop_inv a0 pivot l r", OF _ res], goal_cases)
    case 1
    show ?case using assms(1) by (auto simp: loop_inv_def)
  next
    case (2 a pl pr)
    then show ?case by (simp add: loop_inv_def cmp_gt)
  next
    case (3 a pl pr)
    then have so: "same_outside a a0 l r" and b: "l \<le> pl" "pl \<le> pr" "pr \<le> r"
      and lo: "\<And>p. l \<le> p \<Longrightarrow> p < pl \<Longrightarrow> rank (a ! p) \<le> srank pivot"
      and hi: "\<And>p. pr \<le> p \<Longrightarrow> p < r \<Longrightarrow> srank pivot \<le> rank (a ! p)"
      by (simp_all add: loop_inv_def)
    have le: "rank (a ! pl) \<le> srank pivot" using 3 by (simp add: cmp_gt)
    have lo': "rank (a ! p) \<le> srank pivot" if "l \<le> p" "p < pl + 1" for p
      using that lo [of p] le by (cases "p = pl") simp_all
    show ?case
      unfolding loop_inv_def using so b 3(2) lo' hi by auto
  next
    case (4 a pl pr)
    then have so: "same_outside a a0 l r" and b: "l \<le> pl" "pl \<le> pr" "pr \<le> r"
      and lo: "\<And>p. l \<le> p \<Longrightarrow> p < pl \<Longrightarrow> rank (a ! p) \<le> srank pivot"
      and hi: "\<And>p. pr \<le> p \<Longrightarrow> p < r \<Longrightarrow> srank pivot \<le> rank (a ! p)"
      and gt: "srank pivot < rank (a ! pl)"
      by (simp_all add: loop_inv_def)
    have lt: "rank (a ! (pr - 1)) < srank pivot" using 4 by (simp add: cmp_lt)
    have len: "length a = length a0" using so by (simp add: same_outside_def)
    have ne: "pl \<noteq> pr - 1" using lt gt by auto
    with 4(2) have pp: "pl < pr - 1" by linarith
    let ?a = "a[pr - 1 := a ! pl, pl := a ! (pr - 1)]"
    have so': "same_outside ?a a0 l r"
      using same_outside_swap [OF so, of "pr - 1" pl] b pp assms(2) by simp
    have at_pl: "?a ! pl = a ! (pr - 1)" using pp b assms(2) len by simp
    have at_pr: "?a ! (pr - 1) = a ! pl" using pp b assms(2) len by simp
    have other: "?a ! p = a ! p" if "p \<noteq> pl" "p \<noteq> pr - 1" for p using that by simp
    have lo': "rank (?a ! p) \<le> srank pivot" if "l \<le> p" "p < pl + 1" for p
    proof (cases "p = pl")
      case True
      with at_pl lt show ?thesis by simp
    next
      case False
      with that pp have "p < pl" "p \<noteq> pr - 1" by linarith+
      with other [of p] lo [of p] that show ?thesis by simp
    qed
    have hi': "srank pivot \<le> rank (?a ! p)" if "pr - 1 \<le> p" "p < r" for p
    proof (cases "p = pr - 1")
      case True
      with at_pr gt show ?thesis by simp
    next
      case False
      with that pp have "pr \<le> p" "p \<noteq> pl" by linarith+
      with other [of p] hi [of p] that False show ?thesis by simp
    qed
    show ?case
      unfolding loop_inv_def using so' b pp lo' hi' by auto
  next
    case (5 a pl pr)
    then have so: "same_outside a a0 l r" and b: "l \<le> pl" "pl \<le> pr" "pr \<le> r"
      and lo: "\<And>p. l \<le> p \<Longrightarrow> p < pl \<Longrightarrow> rank (a ! p) \<le> srank pivot"
      and hi: "\<And>p. pr \<le> p \<Longrightarrow> p < r \<Longrightarrow> srank pivot \<le> rank (a ! p)"
      and gt: "srank pivot < rank (a ! pl)"
      by (simp_all add: loop_inv_def)
    have ge: "srank pivot \<le> rank (a ! (pr - 1))" using 5 by (simp add: cmp_lt)
    have hi': "srank pivot \<le> rank (a ! p)" if "pr - 1 \<le> p" "p < r" for p
    proof (cases "p = pr - 1")
      case True
      with ge show ?thesis by simp
    next
      case False
      with that have "pr \<le> p" by linarith
      with hi [of p] that show ?thesis by simp
    qed
    have "pl \<le> pr - 1" "pr - 1 \<le> r" using 5(2) b by linarith+
    then show ?case
      unfolding loop_inv_def using so b lo hi' gt by auto
  qed
  then obtain s' where i: "loop_inv a0 pivot l r a' pl pr s'" and e: "\<not> pl < pr" by blast
  then have "pl = pr" by (simp add: loop_inv_def)
  with i show ?thesis by (auto simp: loop_inv_def parted_def)
qed

lemma same_outside_wider:
  "same_outside a' a l r \<Longrightarrow> l' \<le> l \<Longrightarrow> r \<le> r' \<Longrightarrow> same_outside a' a l' r'"
  unfolding same_outside_def by (metis (no_types, lifting) le_trans less_le_trans)

lemma partition_worker_spec:
  assumes "l \<le> r" "r \<le> length a0"
    and m: "is_master \<longrightarrow> l < r \<and> srank pivot = rank (a0 ! l)"
    and res: "partition_worker a0 pivot l r is_master = (a', pl, pr)"
  shows "same_outside a' a0 l r \<and> parted a' pivot l pr pl r \<and> pl = pr + of_bool is_master"
proof (cases is_master)
  case False
  with res have "partition_loop a0 pivot l r PARTITION_SCAN_LEFT = (a', pl, pr)"
    by (auto simp: partition_worker_def split: prod.splits)
  from partition_loop_spec [OF assms(1,2) this] False show ?thesis by auto
next
  case True
  with m have lr: "l < r" and piv: "srank pivot = rank (a0 ! l)" by simp_all
  obtain a1 p1 p2 where
    loop: "partition_loop a0 pivot (l + 1) r PARTITION_SCAN_LEFT = (a1, p1, p2)"
    by (metis prod_cases3)
  have "l + 1 \<le> r" using lr by simp
  from partition_loop_spec [OF this assms(2) loop]
  have so1: "same_outside a1 a0 (l + 1) r" and eq: "p1 = p2"
    and pt: "parted a1 pivot (l + 1) p2 p1 r" by blast+
  from res True loop eq have a': "a' = a1[p1 - 1 := a1 ! l, l := a1 ! (p1 - 1)]"
    and pl: "pl = p1" and pr: "pr = p1 - 1"
    by (auto simp: partition_worker_def)
  from pt eq have b: "l + 1 \<le> p1" "p1 \<le> r"
    and lo: "\<And>q. l + 1 \<le> q \<Longrightarrow> q < p1 \<Longrightarrow> rank (a1 ! q) \<le> srank pivot"
    and hi: "\<And>q. p1 \<le> q \<Longrightarrow> q < r \<Longrightarrow> srank pivot \<le> rank (a1 ! q)"
    by (simp_all add: parted_def)
  have len1: "length a1 = length a0" using so1 by (simp add: same_outside_def)
  have al: "a1 ! l = a0 ! l"
    using so1 lr assms(2) unfolding same_outside_def by (metis Suc_eq_plus1 lessI less_le_trans)
  have so: "same_outside a' a0 l r"
    unfolding a'
    using same_outside_swap [OF same_outside_wider [OF so1, of l r], of "p1 - 1" l] b lr assms(2)
    by simp
  have at_l: "a' ! l = a1 ! (p1 - 1)" unfolding a' using lr assms(2) len1 by simp
  have at_p: "a' ! (p1 - 1) = a1 ! l"
    unfolding a' using b lr assms(2) len1 by (cases "p1 - 1 = l") simp_all
  have other: "a' ! q = a1 ! q" if "q \<noteq> l" "q \<noteq> p1 - 1" for q unfolding a' using that by simp
  have lo': "rank (a' ! q) \<le> srank pivot" if "l \<le> q" "q < p1 - 1" for q
  proof (cases "q = l")
    case True
    with that have "l + 1 \<le> p1 - 1" "p1 - 1 < p1" by linarith+
    with lo [of "p1 - 1"] at_l True show ?thesis by simp
  next
    case False
    with that have "l + 1 \<le> q" "q < p1" "q \<noteq> p1 - 1" by linarith+
    with lo [of q] other [of q] False show ?thesis by simp
  qed
  have mid: "rank (a' ! q) = srank pivot" if "p1 - 1 \<le> q" "q < p1" for q
  proof -
    from that have "q = p1 - 1" by linarith
    with at_p al piv show ?thesis by simp
  qed
  have hi': "srank pivot \<le> rank (a' ! q)" if "p1 \<le> q" "q < r" for q
  proof -
    from that b have "q \<noteq> l" "q \<noteq> p1 - 1" by linarith+
    with hi [of q] other [of q] that show ?thesis by simp
  qed
  have "parted a' pivot l (p1 - 1) p1 r"
    unfolding parted_def using b lo' mid hi' by auto
  with so pl pr True b show ?thesis by simp
qed

lemma same_outside_nth:
  "same_outside a' a l r \<Longrightarrow> p < length a \<Longrightarrow> p < l \<or> r \<le> p \<Longrightarrow> a' ! p = a ! p"
  unfolding same_outside_def by blast

lemma same_outside_length: "same_outside a' a l r \<Longrightarrow> length a' = length a"
  by (simp add: same_outside_def)

lemma wperm_trans:
  assumes "wperm W a2 a1 l1 r1" "wperm W a3 a2 l2 r2"
    and "\<forall>r<W. l ! r \<le> l1 ! r \<and> l ! r \<le> l2 ! r \<and> r1 ! r \<le> rr ! r \<and> r2 ! r \<le> rr ! r"
  shows "wperm W a3 a1 l rr"
  unfolding wperm_def
proof (intro conjI allI impI)
  show "length a3 = W" using assms(2) by (simp add: wperm_def)
  fix r assume r: "r < W"
  from assms r have s: "same_outside (a2 ! r) (a1 ! r) (l1 ! r) (r1 ! r)"
    "same_outside (a3 ! r) (a2 ! r) (l2 ! r) (r2 ! r)"
    by (simp_all add: wperm_def)
  from assms(3) r have b: "l ! r \<le> l1 ! r" "l ! r \<le> l2 ! r" "r1 ! r \<le> rr ! r" "r2 ! r \<le> rr ! r"
    by simp_all
  show "same_outside (a3 ! r) (a1 ! r) (l ! r) (rr ! r)"
    by (rule same_outside_trans [OF s b])
qed

lemma good_preserved:
  assumes g: "good W arrs s idxs t" and w: "wperm W arrs' arrs ls rs"
    and b: "\<forall>r<W. ls ! r \<le> rs ! r \<and> rs ! r \<le> length (arrs ! r)
                 \<and> (rs ! r \<le> idxs ! r \<or> idxs ! r \<le> ls ! r)"
  shows "good W arrs' s idxs t"
  unfolding good_def
proof (intro conjI allI impI)
  show "length idxs = W" "sum_list idxs = t" using g by (simp_all add: good_def)
next
  fix r assume r: "r < W"
  from w r have so: "same_outside (arrs' ! r) (arrs ! r) (ls ! r) (rs ! r)"
    by (simp add: wperm_def)
  note len = same_outside_length [OF so]
  from b r have lr: "ls ! r \<le> rs ! r" "rs ! r \<le> length (arrs ! r)"
    and side: "rs ! r \<le> idxs ! r \<or> idxs ! r \<le> ls ! r" by simp_all
  from g r have i: "idxs ! r \<le> length (arrs ! r)"
    and lo: "\<And>p. p < idxs ! r \<Longrightarrow> rank (arrs ! r ! p) \<le> srank s"
    and hi: "\<And>p. idxs ! r \<le> p \<Longrightarrow> p < length (arrs ! r) \<Longrightarrow> srank s \<le> rank (arrs ! r ! p)"
    by (simp_all add: good_def)
  show "idxs ! r \<le> length (arrs' ! r)" using i len by simp
  {
    fix p assume p: "p < idxs ! r"
    show "rank (arrs' ! r ! p) \<le> srank s"
    proof (cases "ls ! r \<le> p \<and> p < rs ! r")
      case False
      then have "arrs' ! r ! p = arrs ! r ! p"
        using p i by (intro same_outside_nth [OF so]) auto
      with lo [OF p] show ?thesis by simp
    next
      case True
      then obtain q where q: "ls ! r \<le> q" "q < rs ! r" "arrs' ! r ! p = arrs ! r ! q"
        using same_outside_window_elem [OF so lr] by blast
      from True p side have "rs ! r \<le> idxs ! r" by linarith
      with q have "q < idxs ! r" by linarith
      with lo [of q] q show ?thesis by simp
    qed
  }
  {
    fix p assume p: "idxs ! r \<le> p \<and> p < length (arrs' ! r)"
    show "srank s \<le> rank (arrs' ! r ! p)"
    proof (cases "ls ! r \<le> p \<and> p < rs ! r")
      case False
      then have "arrs' ! r ! p = arrs ! r ! p"
        using p len by (intro same_outside_nth [OF so]) auto
      with hi [of p] p len show ?thesis by simp
    next
      case True
      then obtain q where q: "ls ! r \<le> q" "q < rs ! r" "arrs' ! r ! p = arrs ! r ! q"
        using same_outside_window_elem [OF so lr] by blast
      from True p side have "idxs ! r \<le> ls ! r" by linarith
      with q lr have "idxs ! r \<le> q" "q < length (arrs ! r)" by linarith+
      with hi [of q] q show ?thesis by simp
    qed
  }
qed

lemma qinv_left:
  assumes inv: "qinv arrs ls rs" and pa: "parted_all arrs1 arrs pivot ls prs pls rs"
  shows "qinv arrs1 ls prs"
  unfolding qinv_def
proof (intro conjI allI impI)
  let ?W = "length ls"
  show "length arrs1 = ?W" "length prs = ?W" using pa by (simp_all add: parted_all_def)
  have so: "same_outside (arrs1 ! r) (arrs ! r) (ls ! r) (rs ! r)"
    and pt: "parted (arrs1 ! r) pivot (ls ! r) (prs ! r) (pls ! r) (rs ! r)" if "r < ?W" for r
    using pa that by (simp_all add: parted_all_def)
  have bd: "ls ! r \<le> rs ! r" "rs ! r \<le> length (arrs ! r)" if "r < ?W" for r
    using inv that by (simp_all add: qinv_def)
  have low: "rank (arrs ! r ! p) \<le> rank (arrs ! r' ! q)"
    if "r < ?W" "r' < ?W" "p < ls ! r" "ls ! r' \<le> q" "q < rs ! r'" for r r' p q
    using inv that unfolding qinv_def by blast
  have high: "rank (arrs ! r' ! q) \<le> rank (arrs ! r ! p)"
    if "r < ?W" "r' < ?W" "rs ! r \<le> p" "p < length (arrs ! r)" "ls ! r' \<le> q" "q < rs ! r'"
    for r r' p q
    using inv that unfolding qinv_def by blast
  have pb: "ls ! r \<le> prs ! r" "prs ! r \<le> pls ! r" "pls ! r \<le> rs ! r" if "r < ?W" for r
    using pt [OF that] by (simp_all add: parted_def)
  have wl: "rank (arrs1 ! r ! p) \<le> srank pivot" if "r < ?W" "ls ! r \<le> p" "p < prs ! r" for r p
    using pt [OF that(1)] that(2,3) unfolding parted_def by blast
  have wh: "srank pivot \<le> rank (arrs1 ! r ! p)" if "r < ?W" "prs ! r \<le> p" "p < rs ! r" for r p
  proof (cases "p < pls ! r")
    case True
    with pt [OF that(1)] that(2) have "rank (arrs1 ! r ! p) = srank pivot"
      unfolding parted_def by blast
    then show ?thesis by simp
  next
    case False
    then have "pls ! r \<le> p" by simp
    with pt [OF that(1)] that(3) show ?thesis unfolding parted_def by blast
  qed
  have old: "\<exists>q'. ls ! r \<le> q' \<and> q' < rs ! r \<and> arrs1 ! r ! q = arrs ! r ! q'"
    if "r < ?W" "ls ! r \<le> q" "q < rs ! r" for r q
    using same_outside_window_elem [OF so [OF that(1)] bd [OF that(1)] that(2,3)] .
  {
    fix r assume r: "r < ?W"
    show "ls ! r \<le> prs ! r" using pb [OF r] by simp
    show "prs ! r \<le> length (arrs1 ! r)"
      using pb [OF r] bd [OF r] same_outside_length [OF so [OF r]] by simp
  }
  {
    fix r r' p q
    assume a: "r < ?W" "r' < ?W" "p < ls ! r \<and> ls ! r' \<le> q \<and> q < prs ! r'"
    then have q: "ls ! r' \<le> q" "q < rs ! r'" using pb [of r'] by linarith+
    from old [OF a(2) q] obtain q' where q': "ls ! r' \<le> q'" "q' < rs ! r'"
      "arrs1 ! r' ! q = arrs ! r' ! q'" by blast
    have "arrs1 ! r ! p = arrs ! r ! p"
      using a bd [of r] by (intro same_outside_nth [OF so]) auto
    with low [OF a(1,2) _ q'(1,2), of p] a(3) q'(3)
    show "rank (arrs1 ! r ! p) \<le> rank (arrs1 ! r' ! q)" by simp
  }
  {
    fix r r' p q
    assume a: "r < ?W" "r' < ?W"
      "prs ! r \<le> p \<and> p < length (arrs1 ! r) \<and> ls ! r' \<le> q \<and> q < prs ! r'"
    then have q: "ls ! r' \<le> q" "q < rs ! r'" using pb [of r'] by linarith+
    have len: "length (arrs1 ! r) = length (arrs ! r)" using same_outside_length [OF so [OF a(1)]] .
    show "rank (arrs1 ! r' ! q) \<le> rank (arrs1 ! r ! p)"
    proof (cases "p < rs ! r")
      case True
      have "rank (arrs1 ! r' ! q) \<le> srank pivot" using wl [OF a(2)] a(3) by simp
      also have "\<dots> \<le> rank (arrs1 ! r ! p)" using wh [OF a(1)] a(3) True by simp
      finally show ?thesis .
    next
      case False
      from old [OF a(2) q] obtain q' where q': "ls ! r' \<le> q'" "q' < rs ! r'"
        "arrs1 ! r' ! q = arrs ! r' ! q'" by blast
      have "arrs1 ! r ! p = arrs ! r ! p"
        using a False len by (intro same_outside_nth [OF so]) auto
      with high [OF a(1,2) _ _ q'(1,2), of p] a(3) False len q'(3)
      show ?thesis by simp
    qed
  }
qed

lemma spot_preserved:
  assumes "spot arrs s idxs r" "wperm W arrs' arrs ls rs" "r < W"
    and "idxs ! r < ls ! r \<or> rs ! r \<le> idxs ! r"
  shows "spot arrs' s idxs r"
proof -
  from assms(2,3) have so: "same_outside (arrs' ! r) (arrs ! r) (ls ! r) (rs ! r)"
    by (simp add: wperm_def)
  from assms(1) have i: "idxs ! r < length (arrs ! r)" by (simp add: spot_def)
  have "arrs' ! r ! (idxs ! r) = arrs ! r ! (idxs ! r)"
    by (rule same_outside_nth [OF so i assms(4)])
  with assms(1) same_outside_length [OF so] show ?thesis by (simp add: spot_def)
qed

lemma qinv_right:
  assumes inv: "qinv arrs ls rs" and pa: "parted_all arrs1 arrs pivot ls prs pls rs"
    and w: "wperm (length ls) arrs2 arrs1 ls prs"
  shows "qinv arrs2 pls rs"
  unfolding qinv_def
proof (intro conjI allI impI)
  let ?W = "length ls"
  have lp: "length pls = ?W" using pa by (simp add: parted_all_def)
  show "length arrs2 = length pls" using w lp by (simp add: wperm_def)
  show "length rs = length pls" using inv lp by (simp add: qinv_def)
  have so: "same_outside (arrs1 ! r) (arrs ! r) (ls ! r) (rs ! r)"
    and pt: "parted (arrs1 ! r) pivot (ls ! r) (prs ! r) (pls ! r) (rs ! r)" if "r < ?W" for r
    using pa that by (simp_all add: parted_all_def)
  have so2: "same_outside (arrs2 ! r) (arrs1 ! r) (ls ! r) (prs ! r)" if "r < ?W" for r
    using w that by (simp add: wperm_def)
  have bd: "ls ! r \<le> rs ! r" "rs ! r \<le> length (arrs ! r)" if "r < ?W" for r
    using inv that by (simp_all add: qinv_def)
  have low: "rank (arrs ! r ! p) \<le> rank (arrs ! r' ! q)"
    if "r < ?W" "r' < ?W" "p < ls ! r" "ls ! r' \<le> q" "q < rs ! r'" for r r' p q
    using inv that unfolding qinv_def by blast
  have high: "rank (arrs ! r' ! q) \<le> rank (arrs ! r ! p)"
    if "r < ?W" "r' < ?W" "rs ! r \<le> p" "p < length (arrs ! r)" "ls ! r' \<le> q" "q < rs ! r'"
    for r r' p q
    using inv that unfolding qinv_def by blast
  have pb: "ls ! r \<le> prs ! r" "prs ! r \<le> pls ! r" "pls ! r \<le> rs ! r" if "r < ?W" for r
    using pt [OF that] by (simp_all add: parted_def)
  have len1: "length (arrs1 ! r) = length (arrs ! r)" if "r < ?W" for r
    using same_outside_length [OF so [OF that]] .
  have len2: "length (arrs2 ! r) = length (arrs ! r)" if "r < ?W" for r
    using same_outside_length [OF so2 [OF that]] len1 [OF that] by simp
  have wl: "rank (arrs1 ! r ! p) \<le> srank pivot" if "r < ?W" "ls ! r \<le> p" "p < pls ! r" for r p
  proof (cases "p < prs ! r")
    case True
    with pt [OF that(1)] that(2) show ?thesis unfolding parted_def by blast
  next
    case False
    then have "prs ! r \<le> p" by simp
    with pt [OF that(1)] that(3) have "rank (arrs1 ! r ! p) = srank pivot"
      unfolding parted_def by blast
    then show ?thesis by simp
  qed
  have wh: "srank pivot \<le> rank (arrs1 ! r ! p)" if "r < ?W" "pls ! r \<le> p" "p < rs ! r" for r p
    using pt [OF that(1)] that(2,3) unfolding parted_def by blast
  have old: "\<exists>q'. ls ! r \<le> q' \<and> q' < rs ! r \<and> arrs1 ! r ! q = arrs ! r ! q'"
    if "r < ?W" "ls ! r \<le> q" "q < rs ! r" for r q
    using same_outside_window_elem [OF so [OF that(1)] bd [OF that(1)] that(2,3)] .
  have keep: "arrs2 ! r ! p = arrs1 ! r ! p" if "r < ?W" "p < length (arrs ! r)" "p < ls ! r \<or> prs ! r \<le> p"
    for r p
    using same_outside_nth [OF so2 [OF that(1)]] that len1 [OF that(1)] by simp
  have keep1: "arrs1 ! r ! p = arrs ! r ! p" if "r < ?W" "p < length (arrs ! r)" "p < ls ! r \<or> rs ! r \<le> p"
    for r p
    using same_outside_nth [OF so [OF that(1)]] that by simp
  have mid: "\<exists>p'. ls ! r \<le> p' \<and> p' < prs ! r \<and> arrs2 ! r ! p = arrs1 ! r ! p'"
    if "r < ?W" "ls ! r \<le> p" "p < prs ! r" for r p
  proof -
    have "prs ! r \<le> length (arrs1 ! r)" using pb [OF that(1)] bd [OF that(1)] len1 [OF that(1)] by simp
    from same_outside_window_elem [OF so2 [OF that(1)] pb(1) [OF that(1)] this that(2,3)]
    show ?thesis .
  qed
  {
    fix r assume "r < length pls"
    then have r: "r < ?W" using lp by simp
    show "pls ! r \<le> rs ! r" using pb [OF r] by simp
    show "rs ! r \<le> length (arrs2 ! r)" using bd [OF r] len2 [OF r] by simp
  }
  {
    fix r r' p q
    assume "r < length pls" "r' < length pls" and a: "p < pls ! r \<and> pls ! r' \<le> q \<and> q < rs ! r'"
    then have r: "r < ?W" and r': "r' < ?W" using lp by simp_all
    have ql: "q < length (arrs ! r')" using a bd [OF r'] by simp
    have q2: "arrs2 ! r' ! q = arrs1 ! r' ! q"
      using a pb [OF r'] ql by (intro keep [OF r']) simp_all
    have qp: "srank pivot \<le> rank (arrs1 ! r' ! q)" using wh [OF r'] a by simp
    have qw: "ls ! r' \<le> q" "q < rs ! r'" using a pb [OF r'] by simp_all
    show "rank (arrs2 ! r ! p) \<le> rank (arrs2 ! r' ! q)"
    proof (cases "p < ls ! r")
      case True
      then have "arrs2 ! r ! p = arrs ! r ! p"
        using keep [OF r, of p] keep1 [OF r, of p] bd [OF r] by simp
      moreover obtain q' where "ls ! r' \<le> q'" "q' < rs ! r'" "arrs1 ! r' ! q = arrs ! r' ! q'"
        using old [OF r' qw] by blast
      ultimately show ?thesis using low [OF r r' True, of q'] q2 by simp
    next
      case False
      then have lp': "ls ! r \<le> p" by simp
      have "rank (arrs2 ! r ! p) \<le> srank pivot"
      proof (cases "p < prs ! r")
        case True
        from mid [OF r lp' True] obtain p' where p': "ls ! r \<le> p'" "p' < prs ! r"
          "arrs2 ! r ! p = arrs1 ! r ! p'" by blast
        with wl [OF r, of p'] pb [OF r] show ?thesis by simp
      next
        case False
        then have "arrs2 ! r ! p = arrs1 ! r ! p"
          using a pb [OF r] bd [OF r] by (intro keep [OF r]) simp_all
        with wl [OF r lp'] a show ?thesis by simp
      qed
      with qp q2 show ?thesis by simp
    qed
  }
  {
    fix r r' p q
    assume "r < length pls" "r' < length pls"
      and a: "rs ! r \<le> p \<and> p < length (arrs2 ! r) \<and> pls ! r' \<le> q \<and> q < rs ! r'"
    then have r: "r < ?W" and r': "r' < ?W" using lp by simp_all
    have ql: "q < length (arrs ! r')" using a bd [OF r'] by simp
    have q2: "arrs2 ! r' ! q = arrs1 ! r' ! q"
      using a pb [OF r'] ql by (intro keep [OF r']) simp_all
    have qw: "ls ! r' \<le> q" "q < rs ! r'" using a pb [OF r'] by simp_all
    obtain q' where q': "ls ! r' \<le> q'" "q' < rs ! r'" "arrs1 ! r' ! q = arrs ! r' ! q'"
      using old [OF r' qw] by blast
    have pl: "p < length (arrs ! r)" using a len2 [OF r] by simp
    have "arrs2 ! r ! p = arrs ! r ! p"
      using keep [OF r pl] keep1 [OF r pl] a pb [OF r] by simp
    with high [OF r r' _ pl q'(1,2)] a q2 q'(3)
    show "rank (arrs2 ! r' ! q) \<le> rank (arrs2 ! r ! p)" by simp
  }
qed

lemma good_pivot:
  assumes inv: "qinv arrs ls rs" and pa: "parted_all arrs1 arrs pivot ls prs pls rs"
    and m: "m < length ls" "ls ! m < rs ! m" and piv: "srank pivot = rank (arrs ! m ! (ls ! m))"
  shows "good (length ls) arrs1 pivot prs (sum_list prs)"
  unfolding good_def
proof (intro conjI allI impI)
  let ?W = "length ls"
  show "length prs = ?W" using pa by (simp add: parted_all_def)
  show "sum_list prs = sum_list prs" ..
  fix r assume r: "r < ?W"
  have so: "same_outside (arrs1 ! r) (arrs ! r) (ls ! r) (rs ! r)"
    and pt: "parted (arrs1 ! r) pivot (ls ! r) (prs ! r) (pls ! r) (rs ! r)"
    using pa r by (simp_all add: parted_all_def)
  have bd: "ls ! r \<le> rs ! r" "rs ! r \<le> length (arrs ! r)"
    using inv r by (simp_all add: qinv_def)
  have pb: "ls ! r \<le> prs ! r" "prs ! r \<le> pls ! r" "pls ! r \<le> rs ! r"
    using pt by (simp_all add: parted_def)
  note len = same_outside_length [OF so]
  show "prs ! r \<le> length (arrs1 ! r)" using pb bd len by simp
  {
    fix p assume p: "p < prs ! r"
    show "rank (arrs1 ! r ! p) \<le> srank pivot"
    proof (cases "p < ls ! r")
      case True
      have "arrs1 ! r ! p = arrs ! r ! p"
        using True bd by (intro same_outside_nth [OF so]) simp_all
      moreover have "rank (arrs ! r ! p) \<le> rank (arrs ! m ! (ls ! m))"
        using inv r m True unfolding qinv_def by blast
      ultimately show ?thesis using piv by simp
    next
      case False
      with pt p show ?thesis unfolding parted_def by (simp add: not_less)
    qed
  }
  {
    fix p assume p: "prs ! r \<le> p \<and> p < length (arrs1 ! r)"
    show "srank pivot \<le> rank (arrs1 ! r ! p)"
    proof (cases "p < rs ! r")
      case False
      have "arrs1 ! r ! p = arrs ! r ! p"
        using False p len by (intro same_outside_nth [OF so]) simp_all
      moreover have "rank (arrs ! m ! (ls ! m)) \<le> rank (arrs ! r ! p)"
        using inv r m False p len unfolding qinv_def by (simp add: not_less)
      ultimately show ?thesis using piv by simp
    next
      case True
      show ?thesis
      proof (cases "p < pls ! r")
        case True
        with pt p have "rank (arrs1 ! r ! p) = srank pivot" unfolding parted_def by simp
        then show ?thesis by simp
      next
        case False
        with pt True show ?thesis unfolding parted_def by (simp add: not_less)
      qed
    qed
  }
qed

lemma partition_all_parted:
  assumes inv: "qinv arrs ls rs" and m: "m < length ls" "ls ! m < rs ! m"
    and piv: "srank pivot = rank (arrs ! m ! (ls ! m))"
  shows "parted_all (map fst (partition_all arrs pivot ls rs m)) arrs pivot ls
           (map (snd \<circ> snd) (partition_all arrs pivot ls rs m))
           (map (fst \<circ> snd) (partition_all arrs pivot ls rs m)) rs
         \<and> map (fst \<circ> snd) (partition_all arrs pivot ls rs m) ! m
           = map (snd \<circ> snd) (partition_all arrs pivot ls rs m) ! m + 1"
proof -
  let ?parts = "partition_all arrs pivot ls rs m"
  have len: "length ?parts = length ls" by (simp add: partition_all_def)
  have nth: "?parts ! r = partition_worker (arrs ! r) pivot (ls ! r) (rs ! r) (r = m)"
    if "r < length ls" for r
    using that by (simp add: partition_all_def)
  have spec: "same_outside (fst (?parts ! r)) (arrs ! r) (ls ! r) (rs ! r)
      \<and> parted (fst (?parts ! r)) pivot (ls ! r) (snd (snd (?parts ! r))) (fst (snd (?parts ! r))) (rs ! r)
      \<and> fst (snd (?parts ! r)) = snd (snd (?parts ! r)) + of_bool (r = m)"
    if r: "r < length ls" for r
  proof -
    have bd: "ls ! r \<le> rs ! r" "rs ! r \<le> length (arrs ! r)"
      using inv r by (simp_all add: qinv_def)
    have ms: "r = m \<longrightarrow> ls ! r < rs ! r \<and> srank pivot = rank (arrs ! r ! (ls ! r))"
      using m piv by simp
    have "partition_worker (arrs ! r) pivot (ls ! r) (rs ! r) (r = m)
        = (fst (?parts ! r), fst (snd (?parts ! r)), snd (snd (?parts ! r)))"
      by (simp add: nth [OF r])
    from partition_worker_spec [OF bd ms this] show ?thesis .
  qed
  have "parted_all (map fst ?parts) arrs pivot ls (map (snd \<circ> snd) ?parts) (map (fst \<circ> snd) ?parts) rs"
    unfolding parted_all_def
  proof (intro conjI allI impI)
    show "length (map fst ?parts) = length ls" "length (map (snd \<circ> snd) ?parts) = length ls"
      "length (map (fst \<circ> snd) ?parts) = length ls" by (simp_all add: len)
    fix r assume r: "r < length ls"
    have e: "map fst ?parts ! r = fst (?parts ! r)"
      "map (snd \<circ> snd) ?parts ! r = snd (snd (?parts ! r))"
      "map (fst \<circ> snd) ?parts ! r = fst (snd (?parts ! r))"
      using r len by simp_all
    show "same_outside (map fst ?parts ! r) (arrs ! r) (ls ! r) (rs ! r)"
      unfolding e using spec [OF r] by (rule conjunct1)
    show "parted (map fst ?parts ! r) pivot (ls ! r) (map (snd \<circ> snd) ?parts ! r)
            (map (fst \<circ> snd) ?parts ! r) (rs ! r)"
      unfolding e using spec [OF r] by blast
  qed
  moreover have "map (fst \<circ> snd) ?parts ! m = map (snd \<circ> snd) ?parts ! m + 1"
    using spec [OF m(1)] m(1) by (simp add: len)
  ultimately show ?thesis by simp
qed

lemma res_ok_preserved:
  assumes ok: "res_ok W arrs ls1 rs1 x" and w: "wperm W arrs' arrs ls2 rs2"
    and b: "\<forall>r<W. ls2 ! r \<le> rs2 ! r \<and> rs2 ! r \<le> length (arrs ! r) \<and> rs1 ! r \<le> ls2 ! r"
    and wd: "\<forall>r<W. l ! r \<le> ls1 ! r \<and> rs2 ! r \<le> rr ! r"
  shows "res_ok W arrs' l rr x"
  unfolding res_ok_def
proof (intro conjI)
  from ok have g: "good W arrs (fst x) (snd x) (sum_list (snd x))"
    and rg: "\<And>r. r < W \<Longrightarrow> ls1 ! r \<le> snd x ! r \<and> snd x ! r \<le> rs1 ! r"
    and sp: "\<exists>r<W. snd x ! r < rs1 ! r \<and> spot arrs (fst x) (snd x) r"
    by (simp_all add: res_ok_def)
  show "good W arrs' (fst x) (snd x) (sum_list (snd x))"
  proof (rule good_preserved [OF g w], intro allI impI)
    fix r assume r: "r < W"
    with b rg [OF r] show "ls2 ! r \<le> rs2 ! r \<and> rs2 ! r \<le> length (arrs ! r)
        \<and> (rs2 ! r \<le> snd x ! r \<or> snd x ! r \<le> ls2 ! r)" by auto
  qed
  show "\<forall>r<W. l ! r \<le> snd x ! r \<and> snd x ! r \<le> rr ! r"
  proof (intro allI impI)
    fix r assume r: "r < W"
    with b wd rg [OF r] show "l ! r \<le> snd x ! r \<and> snd x ! r \<le> rr ! r" by fastforce
  qed
  from sp obtain r where r: "r < W" "snd x ! r < rs1 ! r" "spot arrs (fst x) (snd x) r" by blast
  have "snd x ! r < ls2 ! r \<or> rs2 ! r \<le> snd x ! r" using b r by fastforce
  from spot_preserved [OF r(3) w r(1) this] have "spot arrs' (fst x) (snd x) r" .
  moreover have "snd x ! r < rr ! r" using b wd r by fastforce
  ultimately show "\<exists>r<W. snd x ! r < rr ! r \<and> spot arrs' (fst x) (snd x) r" using r(1) by blast
qed

lemma res_ok_wider:
  assumes ok: "res_ok W arrs ls1 rs1 x"
    and wd: "\<forall>r<W. l ! r \<le> ls1 ! r \<and> rs1 ! r \<le> rr ! r"
  shows "res_ok W arrs l rr x"
  using assms unfolding res_ok_def by (meson le_trans less_le_trans)

lemma helper_unfold:
  assumes "targets \<noteq> []" "net lefts rights = 0"
    and "find (\<lambda>r. lefts ! r < rights ! r) [0..<length lefts] = Some m"
  shows "distributed_quickselect_helper net arrs targets lefts rights =
    (let pivot = sample_of (arrs ! m ! (lefts ! m));
         parts = partition_all arrs pivot lefts rights m;
         partition_lefts = map (fst \<circ> snd) parts;
         partition_rights = map (snd \<circ> snd) parts;
         cur_pivot = sum_list partition_rights;
         geq_target_idx = bsearch_ge cur_pivot targets;
         found_target = (geq_target_idx < length targets \<and> targets ! geq_target_idx = cur_pivot);
         gt_target_idx = geq_target_idx + of_bool found_target
     in case distributed_quickselect_helper net (map fst parts)
               (take geq_target_idx targets) lefts partition_rights of
          Inl ret \<Rightarrow> Inl ret
        | Inr (arrs', lower) \<Rightarrow>
            (case distributed_quickselect_helper net arrs'
                    (drop gt_target_idx targets) partition_lefts rights of
               Inl ret \<Rightarrow> Inl ret
             | Inr (arrs'', upper) \<Rightarrow>
                 Inr (arrs'',
                      lower @ (if found_target then [(pivot, partition_rights)] else [])
                        @ upper)))"
  by (subst distributed_quickselect_helper.simps) (simp add: assms)

lemma helper_correct:
  assumes "qinv arrs ls rs"
    and "distributed_quickselect_helper net arrs targets ls rs = Inr (arrs', res)"
  shows "wperm (length ls) arrs' arrs ls rs \<and> map (sum_list \<circ> snd) res = targets
       \<and> (\<forall>x\<in>set res. res_ok (length ls) arrs' ls rs x)"
  using assms
proof (induction net arrs targets ls rs arbitrary: arrs' res
    rule: distributed_quickselect_helper.induct)
  case (1 net arrs targets lefts rights)
  let ?W = "length lefts"
  note inv = "1.prems"(1)
  have la: "length arrs = ?W" using inv by (simp add: qinv_def)
  show ?case
  proof (cases "targets = []")
    case True
    with "1.prems"(2) have "arrs' = arrs" "res = []"
      by (simp_all add: distributed_quickselect_helper.simps)
    then show ?thesis using True la by (simp add: wperm_def)
  next
    case tne: False
    have net0: "\<not> net lefts rights \<noteq> 0"
    proof
      assume "net lefts rights \<noteq> 0"
      with "1.prems"(2) tne show False
        by (subst (asm) distributed_quickselect_helper.simps) simp
    qed
    obtain m where fnd: "find (\<lambda>r. lefts ! r < rights ! r) [0..<length lefts] = Some m"
    proof (cases "find (\<lambda>r. lefts ! r < rights ! r) [0..<length lefts]")
      case None
      with "1.prems"(2) tne net0 have False
        by (subst (asm) distributed_quickselect_helper.simps) simp
      then show ?thesis ..
    next
      case (Some m)
      then show ?thesis by (rule that)
    qed
    from find_ready [OF fnd] have m: "m < ?W" "lefts ! m < rights ! m" by simp_all
    let ?pivot = "sample_of (arrs ! m ! (lefts ! m))"
    let ?parts = "partition_all arrs ?pivot lefts rights m"
    let ?pls = "map (fst \<circ> snd) ?parts"
    let ?prs = "map (snd \<circ> snd) ?parts"
    let ?arrs1 = "map fst ?parts"
    let ?cp = "sum_list ?prs"
    let ?ge = "bsearch_ge ?cp targets"
    let ?found = "?ge < length targets \<and> targets ! ?ge = ?cp"
    let ?gt = "?ge + of_bool ?found"
    have piv: "srank ?pivot = rank (arrs ! m ! (lefts ! m))" by simp
    from partition_all_parted [OF inv m piv]
    have pa: "parted_all ?arrs1 arrs ?pivot lefts ?prs ?pls rights"
      and pm: "?pls ! m = ?prs ! m + 1" by blast+
    have so: "same_outside (?arrs1 ! r) (arrs ! r) (lefts ! r) (rights ! r)"
      and pt: "parted (?arrs1 ! r) ?pivot (lefts ! r) (?prs ! r) (?pls ! r) (rights ! r)"
      if "r < ?W" for r
      using pa that unfolding parted_all_def by blast+
    have pb: "lefts ! r \<le> ?prs ! r" "?prs ! r \<le> ?pls ! r" "?pls ! r \<le> rights ! r"
      if "r < ?W" for r
      using pt [OF that] by (simp_all add: parted_def)
    have pbr: "?prs ! r \<le> rights ! r" "lefts ! r \<le> ?pls ! r" if "r < ?W" for r
      using pb [OF that] by linarith+
    have bd: "lefts ! r \<le> rights ! r" "rights ! r \<le> length (arrs ! r)" if "r < ?W" for r
      using inv that by (simp_all add: qinv_def)
    have w1: "wperm ?W ?arrs1 arrs lefts rights"
      unfolding wperm_def using so by (simp add: partition_all_def)
    from "1.prems"(2) obtain arrs2 lower upper where
      c1: "distributed_quickselect_helper net ?arrs1 (take ?ge targets) lefts ?prs
             = Inr (arrs2, lower)"
      and c2: "distributed_quickselect_helper net arrs2 (drop ?gt targets) ?pls rights
             = Inr (arrs', upper)"
      and res: "res = lower @ (if ?found then [(?pivot, ?prs)] else []) @ upper"
      unfolding helper_unfold [where net = net and targets = targets and lefts = lefts
          and rights = rights and m = m and arrs = arrs, OF tne net0 [simplified] fnd] Let_def
      by (auto split: sum.splits prod.splits)
    have inv1: "qinv ?arrs1 lefts ?prs" by (rule qinv_left [OF inv pa])
    from "1.IH"(1) [OF tne net0 fnd refl refl refl refl refl refl refl refl inv1 c1]
    have w2: "wperm ?W arrs2 ?arrs1 lefts ?prs"
      and t1: "map (sum_list \<circ> snd) lower = take ?ge targets"
      and ok1: "\<And>x. x \<in> set lower \<Longrightarrow> res_ok ?W arrs2 lefts ?prs x"
      by blast+
    have inv2: "qinv arrs2 ?pls rights" by (rule qinv_right [OF inv pa w2])
    have lpl: "length ?pls = ?W" by (simp add: partition_all_def)
    from "1.IH"(2) [OF tne net0 fnd refl refl refl refl refl refl refl refl c1 refl inv2 c2]
    have w3: "wperm ?W arrs' arrs2 ?pls rights"
      and t2: "map (sum_list \<circ> snd) upper = drop ?gt targets"
      and ok2: "\<And>x. x \<in> set upper \<Longrightarrow> res_ok ?W arrs' ?pls rights x"
      unfolding lpl by blast+
    have len1: "length (?arrs1 ! r) = length (arrs ! r)" if "r < ?W" for r
      using same_outside_length [OF so [OF that]] .
    have len2: "length (arrs2 ! r) = length (arrs ! r)" if "r < ?W" for r
      using w2 that len1 [OF that] by (simp add: wperm_def same_outside_def)
    have b3: "\<forall>r<?W. ?pls ! r \<le> rights ! r \<and> rights ! r \<le> length (arrs2 ! r) \<and> ?prs ! r \<le> ?pls ! r"
    proof (intro allI impI)
      fix r assume r: "r < ?W"
      have "rights ! r \<le> length (arrs2 ! r)" using bd(2) [OF r] len2 [OF r] by linarith
      with pb(2,3) [OF r]
      show "?pls ! r \<le> rights ! r \<and> rights ! r \<le> length (arrs2 ! r) \<and> ?prs ! r \<le> ?pls ! r"
        by blast
    qed
    have wd_lo: "\<forall>r<?W. lefts ! r \<le> lefts ! r \<and> rights ! r \<le> rights ! r" by simp
    have wa: "wperm ?W arrs' arrs lefts rights"
    proof -
      have "wperm ?W arrs2 arrs lefts rights"
        by (rule wperm_trans [OF w1 w2]) (use pbr in blast)
      then show ?thesis
        by (rule wperm_trans [OF _ w3]) (use pbr in blast)
    qed
    have tg: "map (sum_list \<circ> snd) res = targets"
    proof (cases ?found)
      case True
      then have "targets = take ?ge targets @ [?cp] @ drop (Suc ?ge) targets"
        using id_take_nth_drop [of ?ge targets] by simp
      with True t1 t2 res show ?thesis by simp
    next
      case False
      with t1 t2 res show ?thesis by simp
    qed
    have okl: "res_ok ?W arrs' lefts rights x" if "x \<in> set lower" for x
      by (rule res_ok_preserved [OF ok1 [OF that] w3 b3 wd_lo])
    have oku: "res_ok ?W arrs' lefts rights x" if "x \<in> set upper" for x
      by (rule res_ok_wider [OF ok2 [OF that]]) (use pbr in blast)
    have okp: "res_ok ?W arrs' lefts rights (?pivot, ?prs)"
    proof -
      have g1: "good ?W ?arrs1 ?pivot ?prs (sum_list ?prs)"
        by (rule good_pivot [OF inv pa m piv])
      have s1: "spot ?arrs1 ?pivot ?prs m"
      proof -
        have "?prs ! m < ?pls ! m" using pm by simp
        moreover have "?prs ! m \<le> ?prs ! m" ..
        ultimately have "rank (?arrs1 ! m ! (?prs ! m)) = srank ?pivot"
          using pt [OF m(1)] unfolding parted_def by blast
        moreover have "?prs ! m < length (?arrs1 ! m)"
          using pm pb [OF m(1)] bd [OF m(1)] len1 [OF m(1)] by linarith
        ultimately show ?thesis by (simp add: spot_def)
      qed
      have b2: "\<forall>r<?W. lefts ! r \<le> ?prs ! r \<and> ?prs ! r \<le> length (?arrs1 ! r)
          \<and> (?prs ! r \<le> ?prs ! r \<or> ?prs ! r \<le> lefts ! r)"
      proof (intro allI impI)
        fix r assume r: "r < ?W"
        have "?prs ! r \<le> length (?arrs1 ! r)"
          using pbr(1) [OF r] bd(2) [OF r] len1 [OF r] by linarith
        with pb(1) [OF r] show "lefts ! r \<le> ?prs ! r \<and> ?prs ! r \<le> length (?arrs1 ! r)
          \<and> (?prs ! r \<le> ?prs ! r \<or> ?prs ! r \<le> lefts ! r)" by blast
      qed
      have g2: "good ?W arrs2 ?pivot ?prs (sum_list ?prs)"
        by (rule good_preserved [OF g1 w2 b2])
      have s2: "spot arrs2 ?pivot ?prs m"
        by (rule spot_preserved [OF s1 w2 m(1)]) simp
      have b3': "\<forall>r<?W. ?pls ! r \<le> rights ! r \<and> rights ! r \<le> length (arrs2 ! r)
          \<and> (rights ! r \<le> ?prs ! r \<or> ?prs ! r \<le> ?pls ! r)"
      proof (intro allI impI)
        fix r assume r: "r < ?W"
        have "rights ! r \<le> length (arrs2 ! r)" using bd(2) [OF r] len2 [OF r] by linarith
        with pb(2,3) [OF r] show "?pls ! r \<le> rights ! r \<and> rights ! r \<le> length (arrs2 ! r)
          \<and> (rights ! r \<le> ?prs ! r \<or> ?prs ! r \<le> ?pls ! r)" by blast
      qed
      have g3: "good ?W arrs' ?pivot ?prs (sum_list ?prs)"
        by (rule good_preserved [OF g2 w3 b3'])
      have lt: "?prs ! m < ?pls ! m" using pm by simp
      have s3: "spot arrs' ?pivot ?prs m"
        by (rule spot_preserved [OF s2 w3 m(1)]) (use lt in blast)
      have "?prs ! m < rights ! m" using lt pb(3) [OF m(1)] by linarith
      with s3 m(1) have e: "\<exists>r<?W. ?prs ! r < rights ! r \<and> spot arrs' ?pivot ?prs r" by blast
      have rg: "\<forall>r<?W. lefts ! r \<le> ?prs ! r \<and> ?prs ! r \<le> rights ! r"
        using pb(1) pbr(1) by blast
      show ?thesis unfolding res_ok_def fst_conv snd_conv using g3 rg e by blast
    qed
    have "\<forall>x\<in>set res. res_ok ?W arrs' lefts rights x"
    proof
      fix x assume "x \<in> set res"
      then have "x \<in> set lower \<or> x \<in> set upper \<or> (?found \<and> x = (?pivot, ?prs))"
        unfolding res by (auto split: if_splits)
      then show "res_ok ?W arrs' lefts rights x" using okl oku okp by blast
    qed
    with wa tg show ?thesis by blast
  qed
qed

lemma cmp_le: "(elem_sample_comparator a b \<le> 0) = (rank a \<le> srank b)"
  using cmp_gt [of a b] by (simp add: not_less [symmetric])

lemma cmp_ge: "(0 \<le> elem_sample_comparator a b) = (srank b \<le> rank a)"
  using cmp_lt [of a b] by (simp add: not_less [symmetric])

lemma filter_below:
  assumes "\<forall>p. i \<le> p \<and> p < length a \<longrightarrow> \<not> P (a ! p)"
  shows "length (filter P a) \<le> i"
proof -
  have "filter P (drop i a) = []"
    unfolding filter_empty_conv
  proof
    fix x assume "x \<in> set (drop i a)"
    then obtain k where k: "k < length (drop i a)" "x = drop i a ! k"
      by (metis in_set_conv_nth)
    then have "x = a ! (i + k)" "i + k < length a" by simp_all
    with assms show "\<not> P x" by simp
  qed
  moreover have "filter P a = filter P (take i a) @ filter P (drop i a)"
    by (metis append_take_drop_id filter_append)
  ultimately have "length (filter P a) = length (filter P (take i a))" by simp
  also have "\<dots> \<le> length (take i a)" by (rule length_filter_le)
  also have "\<dots> \<le> i" by simp
  finally show ?thesis .
qed

lemma filter_above:
  assumes "i \<le> length a" "\<forall>p<i. P (a ! p)"
  shows "i \<le> length (filter P a)"
proof -
  have "filter P (take i a) = take i a"
    unfolding filter_id_conv
  proof
    fix x assume "x \<in> set (take i a)"
    then obtain k where k: "k < length (take i a)" "x = take i a ! k"
      by (metis in_set_conv_nth)
    then have "x = a ! k" "k < i" by simp_all
    with assms show "P x" by simp
  qed
  moreover have "filter P a = filter P (take i a) @ filter P (drop i a)"
    by (metis append_take_drop_id filter_append)
  ultimately have "length (filter P a) = length (take i a) + length (filter P (drop i a))"
    by simp
  with assms(1) show ?thesis by simp
qed

lemma sum_list_nth_mono:
  assumes "length xs = length ys" "\<And>i. i < length xs \<Longrightarrow> (xs ! i :: nat) \<le> ys ! i"
  shows "sum_list xs \<le> sum_list ys"
  using assms by (intro sum_list_mono2) auto

lemma count_bounds:
  assumes g: "good W arrs s idxs t" and l: "length arrs = W"
  shows "count_lt arrs s \<le> t \<and> t \<le> count_le arrs s"
proof -
  from g have li: "length idxs = W" and t: "sum_list idxs = t"
    and i: "\<And>r. r < W \<Longrightarrow> idxs ! r \<le> length (arrs ! r)"
    and lo: "\<And>r p. r < W \<Longrightarrow> p < idxs ! r \<Longrightarrow> rank (arrs ! r ! p) \<le> srank s"
    and hi: "\<And>r p. r < W \<Longrightarrow> idxs ! r \<le> p \<Longrightarrow> p < length (arrs ! r)
               \<Longrightarrow> srank s \<le> rank (arrs ! r ! p)"
    by (simp_all add: good_def)
  have "count_lt arrs s \<le> sum_list idxs"
    unfolding count_lt_def
  proof (rule sum_list_nth_mono)
    show "length (map (\<lambda>a. length (filter (\<lambda>e. elem_sample_comparator e s < 0) a)) arrs)
        = length idxs" using l li by simp
    fix r
    assume "r < length (map (\<lambda>a. length (filter (\<lambda>e. elem_sample_comparator e s < 0) a)) arrs)"
    then have r: "r < W" using l by simp
    have "length (filter (\<lambda>e. elem_sample_comparator e s < 0) (arrs ! r)) \<le> idxs ! r"
      by (rule filter_below) (use hi [OF r] in \<open>auto simp: cmp_lt not_less\<close>)
    then show "map (\<lambda>a. length (filter (\<lambda>e. elem_sample_comparator e s < 0) a)) arrs ! r
        \<le> idxs ! r" using r l by simp
  qed
  moreover have "sum_list idxs \<le> count_le arrs s"
    unfolding count_le_def
  proof (rule sum_list_nth_mono)
    show "length idxs
        = length (map (\<lambda>a. length (filter (\<lambda>e. elem_sample_comparator e s \<le> 0) a)) arrs)"
      using l li by simp
    fix r assume "r < length idxs"
    then have r: "r < W" using li by simp
    have "idxs ! r \<le> length (filter (\<lambda>e. elem_sample_comparator e s \<le> 0) (arrs ! r))"
      by (rule filter_above [OF i [OF r]]) (use lo [OF r] in \<open>auto simp: cmp_le\<close>)
    then show "idxs ! r
        \<le> map (\<lambda>a. length (filter (\<lambda>e. elem_sample_comparator e s \<le> 0) a)) arrs ! r"
      using r l by simp
  qed
  ultimately show ?thesis using t by simp
qed

lemma length_filter_mset: "mset a' = mset a \<Longrightarrow> length (filter P a') = length (filter P a)"
  by (metis mset_filter size_mset)

lemma count_perm:
  assumes "length arrs' = length arrs" "\<forall>r<length arrs. mset (arrs' ! r) = mset (arrs ! r)"
  shows "count_lt arrs' s = count_lt arrs s \<and> count_le arrs' s = count_le arrs s"
proof -
  have "map (\<lambda>a. length (filter P a)) arrs' = map (\<lambda>a. length (filter P a)) arrs" for P
    using assms by (intro nth_equalityI) (auto intro: length_filter_mset)
  then show ?thesis by (simp add: count_lt_def count_le_def)
qed

lemma distinct_concat_nth:
  assumes "distinct (concat xss)" "r < length xss" "r' < length xss"
    and "p < length (xss ! r)" "p' < length (xss ! r')" "xss ! r ! p = xss ! r' ! p'"
  shows "r = r' \<and> p = p'"
  using assms
proof (induction xss arbitrary: r r')
  case Nil
  then show ?case by simp
next
  case (Cons xs xss)
  from Cons.prems(1) have d: "distinct xs" "distinct (concat xss)"
    and dj: "set xs \<inter> set (concat xss) = {}" by simp_all
  have inc: "xss ! k ! q \<in> set (concat xss)" if "k < length xss" "q < length (xss ! k)" for k q
    using that by (metis concat.simps(2) in_set_conv_nth set_concat UN_I nth_mem)
  show ?case
  proof (cases r)
    case 0
    show ?thesis
    proof (cases r')
      case 0
      with \<open>r = 0\<close> Cons.prems d show ?thesis by (simp add: nth_eq_iff_index_eq)
    next
      case (Suc k')
      with \<open>r = 0\<close> Cons.prems have pl: "p < length xs" and e: "xs ! p = xss ! k' ! p'"
        and k: "k' < length xss" "p' < length (xss ! k')" by simp_all
      have "xs ! p \<in> set xs" using pl by (rule nth_mem)
      then have "xss ! k' ! p' \<in> set xs" unfolding e .
      moreover have "xss ! k' ! p' \<in> set (concat xss)" by (rule inc [OF k])
      ultimately have False using dj by blast
      then show ?thesis ..
    qed
  next
    case (Suc k)
    show ?thesis
    proof (cases r')
      case 0
      with \<open>r = Suc k\<close> Cons.prems have pl: "p' < length xs" and e: "xs ! p' = xss ! k ! p"
        and k: "k < length xss" "p < length (xss ! k)" by simp_all
      have "xs ! p' \<in> set xs" using pl by (rule nth_mem)
      then have "xss ! k ! p \<in> set xs" unfolding e .
      moreover have "xss ! k ! p \<in> set (concat xss)" by (rule inc [OF k])
      ultimately have False using dj by blast
      then show ?thesis ..
    next
      case (Suc k')
      with \<open>r = Suc k\<close> Cons.prems Cons.IH [OF d(2), of k k'] show ?thesis by simp
    qed
  qed
qed

lemma mset_concat_nth:
  assumes "length xss = length yss" "\<forall>r<length yss. mset (xss ! r) = mset (yss ! r)"
  shows "mset (concat xss) = mset (concat yss)"
  using assms
proof (induction xss yss rule: list_induct2)
  case Nil
  then show ?case by simp
next
  case (Cons x xs y ys)
  have "mset x = mset y" using Cons.prems by auto
  moreover have "mset (concat xs) = mset (concat ys)"
    using Cons.prems by (intro Cons.IH) auto
  ultimately show ?case by simp
qed

lemma distinct_ranks_perm:
  assumes "distinct_ranks arrs" "length arrs' = length arrs"
    and "\<forall>r<length arrs. mset (arrs' ! r) = mset (arrs ! r)"
  shows "distinct_ranks arrs'"
proof -
  have "mset (concat (map (map rank) arrs')) = mset (concat (map (map rank) arrs))"
  proof (rule mset_concat_nth)
    show "length (map (map rank) arrs') = length (map (map rank) arrs)" using assms(2) by simp
    show "\<forall>r<length (map (map rank) arrs).
        mset (map (map rank) arrs' ! r) = mset (map (map rank) arrs ! r)"
      using assms(2,3) by simp
  qed
  with assms(1) show ?thesis
    unfolding distinct_ranks_def by (metis mset_eq_imp_distinct_iff)
qed

lemma qinv_init: "qinv arrs (replicate (length arrs) 0) (map length arrs)"
  by (auto simp: qinv_def)

text \<open>
  Claim C6.  When \<^verbatim>\<open>distributed_quickselect\<close> returns successfully for a sorted array
  of targets (the order that \<^verbatim>\<open>bsearch_ge\<close> relies on), every worker holds
  a permutation of its records, and for every target \<open>targets ! i\<close> the sample with its
  positions \<open>idxs\<close> satisfies: the positions add up to the target; the number of records of
  all workers that compare less than the sample is at most the target, and the number that
  compare less than or equal to it is at least the target; on every worker the records
  before \<open>idxs ! r\<close> compare less than or equal to the sample and the records from
  \<open>idxs ! r\<close> on compare greater than or equal to it.  The records before \<open>idxs ! r\<close> are
  strictly less than the sample when no two records share the key and the ORP id.
\<close>

theorem distributed_quickselect_correct:
  assumes run: "distributed_quickselect net arrs (map length arrs) targets = Inr (arrs', res)"
    and srt: "sorted targets" and i: "i < length targets" and ri: "res ! i = (s, idxs)"
  shows "length res = length targets \<and> length arrs' = length arrs \<and> length idxs = length arrs
       \<and> sum_list idxs = targets ! i
       \<and> count_lt arrs s \<le> targets ! i \<and> targets ! i \<le> count_le arrs s
       \<and> (\<forall>r<length arrs. mset (arrs' ! r) = mset (arrs ! r) \<and> idxs ! r \<le> length (arrs' ! r)
            \<and> (\<forall>p<idxs ! r. elem_sample_comparator (arrs' ! r ! p) s \<le> 0)
            \<and> (\<forall>p. idxs ! r \<le> p \<and> p < length (arrs' ! r)
                  \<longrightarrow> 0 \<le> elem_sample_comparator (arrs' ! r ! p) s)
            \<and> (distinct_ranks arrs
                  \<longrightarrow> (\<forall>p<idxs ! r. elem_sample_comparator (arrs' ! r ! p) s < 0)))"
proof -
  let ?W = "length arrs"
  let ?ls = "replicate ?W 0"
  let ?rs = "map length arrs"
  have W: "length ?ls = ?W" by simp
  from run have h: "distributed_quickselect_helper net arrs targets ?ls ?rs = Inr (arrs', res)"
    by (simp add: distributed_quickselect_def)
  from helper_correct [OF qinv_init h]
  have w: "wperm ?W arrs' arrs ?ls ?rs" and t: "map (sum_list \<circ> snd) res = targets"
    and ok: "\<And>x. x \<in> set res \<Longrightarrow> res_ok ?W arrs' ?ls ?rs x"
    unfolding W by blast+
  from t have lr: "length res = length targets" by (metis length_map)
  from w have la: "length arrs' = ?W"
    and ms: "\<And>r. r < ?W \<Longrightarrow> mset (arrs' ! r) = mset (arrs ! r)"
    by (simp_all add: wperm_def same_outside_def)
  have "res ! i \<in> set res" using i lr by simp
  from ok [OF this] ri have g: "good ?W arrs' s idxs (sum_list idxs)"
    and sp: "\<exists>r<?W. spot arrs' s idxs r"
    by (auto simp: res_ok_def)
  have "map (sum_list \<circ> snd) res ! i = sum_list idxs" using i lr ri by simp
  with t have ti: "sum_list idxs = targets ! i" by simp
  from count_bounds [OF g la] count_perm [OF la, of s] ms ti
  have cb: "count_lt arrs s \<le> targets ! i \<and> targets ! i \<le> count_le arrs s" by simp
  from g have li: "length idxs = ?W"
    and ib: "\<And>r. r < ?W \<Longrightarrow> idxs ! r \<le> length (arrs' ! r)"
    and lo: "\<And>r p. r < ?W \<Longrightarrow> p < idxs ! r \<Longrightarrow> rank (arrs' ! r ! p) \<le> srank s"
    and hi: "\<And>r p. r < ?W \<Longrightarrow> idxs ! r \<le> p \<Longrightarrow> p < length (arrs' ! r)
               \<Longrightarrow> srank s \<le> rank (arrs' ! r ! p)"
    by (simp_all add: good_def)
  have strict: "elem_sample_comparator (arrs' ! r ! p) s < 0"
    if d: "distinct_ranks arrs" and r: "r < ?W" and p: "p < idxs ! r" for r p
  proof -
    from sp obtain r0 where r0: "r0 < ?W" "idxs ! r0 < length (arrs' ! r0)"
      "rank (arrs' ! r0 ! (idxs ! r0)) = srank s" by (auto simp: spot_def)
    have d': "distinct (concat (map (map rank) arrs'))"
      using distinct_ranks_perm [OF d la] ms by (simp add: distinct_ranks_def)
    have "rank (arrs' ! r ! p) \<noteq> srank s"
    proof
      assume e: "rank (arrs' ! r ! p) = srank s"
      have pl: "p < length (arrs' ! r)" using p ib [OF r] by simp
      have "r = r0 \<and> p = idxs ! r0"
        by (rule distinct_concat_nth [OF d'])
           (use r r0 la pl e in simp_all)
      with p show False by simp
    qed
    with lo [OF r p] show ?thesis by (simp add: cmp_lt)
  qed
  have per: "mset (arrs' ! r) = mset (arrs ! r) \<and> idxs ! r \<le> length (arrs' ! r)
            \<and> (\<forall>p<idxs ! r. elem_sample_comparator (arrs' ! r ! p) s \<le> 0)
            \<and> (\<forall>p. idxs ! r \<le> p \<and> p < length (arrs' ! r)
                  \<longrightarrow> 0 \<le> elem_sample_comparator (arrs' ! r ! p) s)
            \<and> (distinct_ranks arrs
                  \<longrightarrow> (\<forall>p<idxs ! r. elem_sample_comparator (arrs' ! r ! p) s < 0))"
    if r: "r < ?W" for r
    using ms [OF r] ib [OF r] lo [OF r] hi [OF r] strict [OF _ r]
    unfolding cmp_le cmp_ge by blast
  from lr la li ti cb per show ?thesis by blast
qed

theorem distributed_quickselect_correct_witness:
  "distributed_quickselect (\<lambda>lefts rights. 0) [example_elems [3, 1], example_elems [2, 0]]
       (map length [example_elems [3, 1], example_elems [2, 0]]) [2]
     = Inr ([example_elems [1, 3], example_elems [0, 2]],
            [(\<lparr>s_key = 2, s_orp_id = 0\<rparr>, [1, 1])])
   \<and> sorted [2 :: nat] \<and> (0 :: nat) < length [2 :: nat]
   \<and> distinct_ranks [example_elems [3, 1], example_elems [2, 0]]
   \<and> sum_list [1, 1] = [2 :: nat] ! 0
   \<and> count_lt [example_elems [3, 1], example_elems [2, 0]] \<lparr>s_key = 2, s_orp_id = 0\<rparr>
        \<le> [2 :: nat] ! 0
   \<and> [2 :: nat] ! 0
        \<le> count_le [example_elems [3, 1], example_elems [2, 0]] \<lparr>s_key = 2, s_orp_id = 0\<rparr>
   \<and> mset ([example_elems [1, 3], example_elems [0, 2]] ! 1)
        = mset ([example_elems [3, 1], example_elems [2, 0]] ! 1)
   \<and> elem_sample_comparator ([example_elems [1, 3], example_elems [0, 2]] ! 1 ! 0)
        \<lparr>s_key = 2, s_orp_id = 0\<rparr> < 0
   \<and> 0 \<le> elem_sample_comparator ([example_elems [1, 3], example_elems [0, 2]] ! 1 ! 1)
        \<lparr>s_key = 2, s_orp_id = 0\<rparr>"
proof -
  let ?A = "[example_elems [3, 1], example_elems [2, 0]]"
  let ?A' = "[example_elems [1, 3], example_elems [0, 2]]"
  let ?s = "\<lparr>s_key = 2, s_orp_id = 0\<rparr>"
  let ?idxs = "[1, 1 :: nat]"
  have run: "distributed_quickselect (\<lambda>lefts rights. 0) ?A (map length ?A) [2]
      = Inr (?A', [(?s, ?idxs)])" by code_simp
  have srt: "sorted [2 :: nat]" by simp
  have i: "(0 :: nat) < length [2 :: nat]" by simp
  have ri: "[(?s, ?idxs)] ! 0 = (?s, ?idxs)" by simp
  have d: "distinct_ranks ?A" by code_simp
  note c = distributed_quickselect_correct [OF run srt i ri]
  from c have g: "sum_list ?idxs = [2 :: nat] ! 0" "count_lt ?A ?s \<le> [2 :: nat] ! 0"
    "[2 :: nat] ! 0 \<le> count_le ?A ?s" by blast+
  have r: "(1 :: nat) < length ?A" by simp
  from c r have m: "mset (?A' ! 1) = mset (?A ! 1)"
    and hi: "\<forall>p. ?idxs ! 1 \<le> p \<and> p < length (?A' ! 1)
               \<longrightarrow> 0 \<le> elem_sample_comparator (?A' ! 1 ! p) ?s"
    and lo: "distinct_ranks ?A \<longrightarrow> (\<forall>p<?idxs ! 1. elem_sample_comparator (?A' ! 1 ! p) ?s < 0)"
    by blast+
  have p0: "(0 :: nat) < ?idxs ! 1" by simp
  have p1: "?idxs ! 1 \<le> (1 :: nat) \<and> 1 < length (?A' ! 1)" by (simp add: example_elems_def)
  from lo d p0 have l: "elem_sample_comparator (?A' ! 1 ! 0) ?s < 0" by blast
  from hi p1 have h: "0 \<le> elem_sample_comparator (?A' ! 1 ! 1) ?s" by blast
  from run srt i d g m l h show ?thesis by blast
qed

text \<open>
  With ties the position is not where the records less than the sample end: of four equal
  records on two workers and the target 2, the sample is one of them with the positions 0
  and 2, and the two records before position 2 of worker 1 are not less than the sample.
\<close>

theorem distributed_quickselect_ties_counterexample:
  "distributed_quickselect (\<lambda>lefts rights. 0) [example_elems [5, 5], example_elems [5, 5]]
       (map length [example_elems [5, 5], example_elems [5, 5]]) [2]
     = Inr ([example_elems [5, 5], example_elems [5, 5]],
            [(\<lparr>s_key = 5, s_orp_id = 0\<rparr>, [0, 2])])
   \<and> (0 :: nat) < [0, 2 :: nat] ! 1
   \<and> \<not> elem_sample_comparator ([example_elems [5, 5], example_elems [5, 5]] ! 1 ! 0)
          \<lparr>s_key = 5, s_orp_id = 0\<rparr> < 0
   \<and> length (filter (\<lambda>e. elem_sample_comparator e \<lparr>s_key = 5, s_orp_id = 0\<rparr> < 0)
         ([example_elems [5, 5], example_elems [5, 5]] ! 1)) \<noteq> [0, 2 :: nat] ! 1"
  by code_simp

end
